theory Spec2Isabelle
  imports Complex_Main "HOL-Library.List_Lexorder"
begin

section \<open>Python strings, slices and search\<close>

text \<open>
  A Python \<^verbatim>\<open>str\<close> is a sequence of Unicode codepoints: \<^verbatim>\<open>len\<close>, indexing and
  slicing all count codepoints. A codepoint is modelled by its number, a string by
  the list of its codepoints. String comparison in Python is lexicographic on
  codepoints, which is the order of \<^verbatim>\<open>HOL-Library.List_Lexorder\<close>.
\<close>

type_synonym uchar = nat
type_synonym ustr = "uchar list"

text \<open>An ASCII literal of the source, as codepoints.\<close>

definition ascii :: "string \<Rightarrow> ustr" where
  "ascii s = map of_char s"

text \<open>
  \<^verbatim>\<open>xs[i:j]\<close> for integers \<^verbatim>\<open>i\<close>, \<^verbatim>\<open>j\<close>: a negative index counts from the end, and
  both ends are clamped to the sequence; an empty range gives the empty sequence.
\<close>

definition norm_index :: "nat \<Rightarrow> int \<Rightarrow> nat" where
  "norm_index n k = (if k < 0 then nat (max 0 (k + int n)) else min (nat k) n)"

definition py_slice :: "'a list \<Rightarrow> int \<Rightarrow> int \<Rightarrow> 'a list" where
  "py_slice xs i j =
     (let a = norm_index (length xs) i; b = norm_index (length xs) j
      in take (b - a) (drop a xs))"

text \<open>
  \<^verbatim>\<open>text.find(sub, start)\<close> for \<^verbatim>\<open>start \<ge> 0\<close>: the lowest index \<^verbatim>\<open>i \<ge> start\<close> with
  \<^verbatim>\<open>text[i:i+len(sub)] == sub\<close>; Python's \<^verbatim>\<open>-1\<close> is \<open>None\<close>. \<open>find_at sub t i\<close>
  scans the suffix \<open>t\<close> of the text that starts at index \<open>i\<close>.
\<close>

definition starts_with :: "ustr \<Rightarrow> ustr \<Rightarrow> bool" where
  "starts_with t sub = (take (length sub) t = sub)"

fun find_at :: "ustr \<Rightarrow> ustr \<Rightarrow> nat \<Rightarrow> nat option" where
  "find_at sub [] i = (if sub = [] then Some i else None)"
| "find_at sub (c # cs) i =
     (if starts_with (c # cs) sub then Some i else find_at sub cs (Suc i))"

definition py_find :: "ustr \<Rightarrow> ustr \<Rightarrow> nat \<Rightarrow> nat option" where
  "py_find text sub start =
     (if length text < start then None else find_at sub (drop start text) start)"

text \<open>
  \<^verbatim>\<open>str.isspace\<close> on one codepoint, which is also the class \<^verbatim>\<open>\s\<close> of \<^verbatim>\<open>re\<close> on
  \<^verbatim>\<open>str\<close> patterns: U+0009..U+000D, U+001C..U+0020, U+0085, U+00A0, U+1680,
  U+2000..U+200A, U+2028, U+2029, U+202F, U+205F, U+3000.
\<close>

definition is_space :: "uchar \<Rightarrow> bool" where
  "is_space c =
     ((9 \<le> c \<and> c \<le> 13) \<or> (28 \<le> c \<and> c \<le> 32) \<or> c = 133 \<or> c = 160 \<or> c = 5760 \<or>
      (8192 \<le> c \<and> c \<le> 8202) \<or> c = 8232 \<or> c = 8233 \<or> c = 8239 \<or> c = 8287 \<or>
      c = 12288)"

text \<open>\<^verbatim>\<open>text.strip()\<close>: leading and trailing whitespace removed.\<close>

definition py_strip :: "ustr \<Rightarrow> ustr" where
  "py_strip t = rev (dropWhile is_space (rev (dropWhile is_space t)))"

section \<open>The issue record\<close>

text \<open>
  Every engine emits dictionaries with the same ten keys. \<^verbatim>\<open>begin\<close> and \<^verbatim>\<open>end\<close> are
  Python integers; \<^verbatim>\<open>confidence\<close> is a float literal that is only stored and
  passed on, modelled by the real number the literal denotes.
\<close>

record issue =
  issue_type :: string
  rule_id :: ustr
  issue_begin :: int
  issue_end :: int
  hit_text :: ustr
  suggestions :: "ustr list"
  evidence :: ustr
  confidence :: real
  context_left :: ustr
  context_right :: ustr

section \<open>Structural rule engine (checker/rules.py)\<close>

definition rules_make_issue ::
  "ustr \<Rightarrow> int \<Rightarrow> int \<Rightarrow> ustr \<Rightarrow> ustr \<Rightarrow> ustr \<Rightarrow> ustr list \<Rightarrow> real \<Rightarrow> issue" where
  "rules_make_issue rid b e text hit ev sugg conf =
     \<lparr> issue_type = ''rule'', rule_id = rid, issue_begin = b, issue_end = e,
       hit_text = hit, suggestions = sugg, evidence = ev, confidence = conf,
       context_left = py_slice text (max 0 (b - 8)) b,
       context_right = py_slice text e (e + 8) \<rparr>"

subsection \<open>Bracket and quote balance\<close>

text \<open>
  The dictionary \<^verbatim>\<open>pairs\<close>, in the order of the source: ASCII and full-width
  parentheses, ASCII and lenticular brackets, double angle brackets, corner
  brackets, white corner brackets, curly double and single quotes.
\<close>

definition pairs_items :: "(uchar \<times> uchar) list" where
  "pairs_items =
     [(40, 41), (65288, 65289), (91, 93), (12304, 12305), (12298, 12299),
      (12300, 12301), (12302, 12303), (8220, 8221), (8216, 8217)]"

definition pairs :: "uchar \<rightharpoonup> uchar" where
  "pairs = map_of pairs_items"

definition is_opener :: "uchar \<Rightarrow> bool" where
  "is_opener ch = (ch \<in> set (map fst pairs_items))"

definition is_closer :: "uchar \<Rightarrow> bool" where
  "is_closer ch = (ch \<in> set (map snd pairs_items))"

definition unpaired_issue :: "ustr \<Rightarrow> nat \<Rightarrow> uchar \<Rightarrow> issue" where
  "unpaired_issue text idx ch =
     rules_make_issue (ascii ''unpaired_bracket'') (int idx) (int idx + 1) text [ch]
       [25324, 21495, 47, 24341, 21495, 19981, 21305, 37197]
       [[26816, 26597, 24182, 21305, 37197, 23545, 24212, 30340, 24038, 20391, 31526, 21495]]
       0.6"

definition unclosed_issue :: "ustr \<Rightarrow> uchar \<times> nat \<Rightarrow> issue" where
  "unclosed_issue text entry =
     rules_make_issue (ascii ''unclosed_bracket'') (int (snd entry)) (int (snd entry) + 1)
       text [fst entry]
       [25324, 21495, 47, 24341, 21495, 26410, 38381, 21512]
       [[34917, 20840, 23545, 24212, 30340, 21491, 20391, 31526, 21495]]
       0.6"

text \<open>
  One iteration of \<^verbatim>\<open>for idx, ch in enumerate(text)\<close>. The state is the stack (a
  Python list: pushed and popped at its end) and the unpaired issues appended so
  far.
\<close>

definition bracket_step ::
  "ustr \<Rightarrow> (uchar \<times> nat) list \<times> issue list \<Rightarrow> nat \<times> uchar \<Rightarrow> (uchar \<times> nat) list \<times> issue list" where
  "bracket_step text st p =
     (let stack = fst st; issues = snd st; idx = fst p; ch = snd p in
      if is_opener ch then (stack @ [(ch, idx)], issues)
      else if is_closer ch then
        (if stack \<noteq> [] \<and> pairs (fst (last stack)) = Some ch
         then (butlast stack, issues)
         else (stack, issues @ [unpaired_issue text idx ch]))
      else (stack, issues))"

fun bracket_loop ::
  "ustr \<Rightarrow> nat \<Rightarrow> ustr \<Rightarrow> (uchar \<times> nat) list \<times> issue list \<Rightarrow> (uchar \<times> nat) list \<times> issue list" where
  "bracket_loop text idx [] st = st"
| "bracket_loop text idx (ch # rest) st =
     bracket_loop text (Suc idx) rest (bracket_step text st (idx, ch))"

text \<open>
  The whole check: the scan from the empty stack, then one unclosed issue for each
  entry left on the stack, in list order (\<^verbatim>\<open>for ch, idx in stack\<close>).
\<close>

definition bracket_checks :: "ustr \<Rightarrow> issue list" where
  "bracket_checks text =
     (let st = bracket_loop text 0 text ([], [])
      in snd st @ map (unclosed_issue text) (fst st))"

subsection \<open>The checks written with regular expressions\<close>

text \<open>
  A match object of \<^verbatim>\<open>re\<close>: \<^verbatim>\<open>m.start()\<close>, \<^verbatim>\<open>m.end()\<close> and \<^verbatim>\<open>m.start(1)\<close> (\<open>None\<close>
  when the pattern has no group 1). \<^verbatim>\<open>m.group()\<close> is \<^verbatim>\<open>text[m.start():m.end()]\<close>.
\<close>

record re_match =
  m_start :: nat
  m_end :: nat
  m_start1 :: "nat option"

definition m_group :: "ustr \<Rightarrow> re_match \<Rightarrow> ustr" where
  "m_group text m = py_slice text (int (m_start m)) (int (m_end m))"

text \<open>
  \<^verbatim>\<open>re.finditer(pattern, text)\<close> for the patterns of this module, none of which
  matches the empty string: the leftmost match is searched from \<open>pos\<close>, and the
  search resumes at the end of each match. \<open>match_at text pos\<close> is the match of the
  pattern that starts exactly at \<open>pos\<close>, if there is one.
\<close>

function finditer :: "(ustr \<Rightarrow> nat \<Rightarrow> re_match option) \<Rightarrow> ustr \<Rightarrow> nat \<Rightarrow> re_match list" where
  "finditer match_at text pos =
     (if length text \<le> pos then []
      else case match_at text pos of
             None \<Rightarrow> finditer match_at text (Suc pos)
           | Some m \<Rightarrow> m # finditer match_at text (max (m_end m) (Suc pos)))"
  by pat_completeness auto
termination
  by (relation "measure (\<lambda>(match_at, text, pos). length text - pos)") auto

text \<open>The end of the longest run of characters satisfying \<open>P\<close> that starts at \<open>s\<close>.\<close>

definition run_end :: "(uchar \<Rightarrow> bool) \<Rightarrow> ustr \<Rightarrow> nat \<Rightarrow> nat" where
  "run_end P text s = s + length (takeWhile P (drop s text))"

text \<open>The character class \<^verbatim>\<open>[\u4e00-\u9fff]\<close>.\<close>

definition is_cjk :: "uchar \<Rightarrow> bool" where
  "is_cjk c = (19968 \<le> c \<and> c \<le> 40959)"

definition cjk_at :: "ustr \<Rightarrow> nat \<Rightarrow> bool" where
  "cjk_at text i = (i < length text \<and> is_cjk (text ! i))"

definition char_at :: "ustr \<Rightarrow> nat \<Rightarrow> uchar \<Rightarrow> bool" where
  "char_at text i c = (i < length text \<and> text ! i = c)"

text \<open>\<^verbatim>\<open>[\u3000\s]{2,}\<close>: a greedy run of at least two whitespace characters.\<close>

definition multi_space_at :: "ustr \<Rightarrow> nat \<Rightarrow> re_match option" where
  "multi_space_at text s =
     (let e = run_end (\<lambda>c. c = 12288 \<or> is_space c) text s
      in if s + 2 \<le> e then Some \<lparr> m_start = s, m_end = e, m_start1 = None \<rparr> else None)"

text \<open>
  \<^verbatim>\<open>\s+(?=[...])\<close> with the seven Chinese punctuation marks: the greedy whitespace
  run must be followed by one of them (a shorter run is followed by whitespace, so
  backtracking finds nothing more).
\<close>

definition cn_punct :: "uchar list" where
  "cn_punct = [65292, 12290, 65307, 65306, 65281, 65311, 12289]"

definition space_before_cn_punct_at :: "ustr \<Rightarrow> nat \<Rightarrow> re_match option" where
  "space_before_cn_punct_at text s =
     (let e = run_end is_space text s
      in if s < e \<and> e < length text \<and> text ! e \<in> set cn_punct
         then Some \<lparr> m_start = s, m_end = e, m_start1 = None \<rparr> else None)"

text \<open>\<^verbatim>\<open>([\u4e00-\u9fff])\1{1,}\<close>: an ideograph and the greedy run of its repetitions.\<close>

definition repeat_char_at :: "ustr \<Rightarrow> nat \<Rightarrow> re_match option" where
  "repeat_char_at text s =
     (if cjk_at text s then
        (let e = run_end (\<lambda>c. c = text ! s) text (Suc s)
         in if Suc s < e then Some \<lparr> m_start = s, m_end = e, m_start1 = Some s \<rparr> else None)
      else None)"

text \<open>
  \<^verbatim>\<open>(?:[\u4e00-\u9fff]{1,2})X([\u4e00-\u9fff])\<close> for a particle \<^verbatim>\<open>X\<close>: two ideographs
  before the particle are tried first (greedy), then one.
\<close>

definition particle_at :: "uchar \<Rightarrow> ustr \<Rightarrow> nat \<Rightarrow> re_match option" where
  "particle_at x text s =
     (if cjk_at text s \<and> cjk_at text (s + 1) \<and> char_at text (s + 2) x \<and> cjk_at text (s + 3)
      then Some \<lparr> m_start = s, m_end = s + 4, m_start1 = Some (s + 3) \<rparr>
      else if cjk_at text s \<and> char_at text (s + 1) x \<and> cjk_at text (s + 2)
      then Some \<lparr> m_start = s, m_end = s + 3, m_start1 = Some (s + 2) \<rparr>
      else None)"

text \<open>Checks 1 to 3: one issue for each match, spanning the match.\<close>

definition span_issue :: "ustr \<Rightarrow> ustr \<Rightarrow> ustr list \<Rightarrow> real \<Rightarrow> ustr \<Rightarrow> re_match \<Rightarrow> issue" where
  "span_issue rid ev sugg conf text m =
     rules_make_issue rid (int (m_start m)) (int (m_end m)) text (m_group text m) ev sugg conf"

definition multi_space_checks :: "ustr \<Rightarrow> issue list" where
  "multi_space_checks text =
     map (span_issue (ascii ''multi_space'') [36830, 32493, 31354, 26684]
            [[21024, 38500, 22810, 20313, 31354, 26684]] 0.85 text)
         (finditer multi_space_at text 0)"

definition space_before_cn_punct_checks :: "ustr \<Rightarrow> issue list" where
  "space_before_cn_punct_checks text =
     map (span_issue (ascii ''space_before_cn_punct'')
            [20013, 25991, 26631, 28857, 21069, 31354, 26684]
            [[21024, 38500, 22810, 20313, 31354, 26684]] 0.8 text)
         (finditer space_before_cn_punct_at text 0)"

definition repeat_char_checks :: "ustr \<Rightarrow> issue list" where
  "repeat_char_checks text =
     map (span_issue (ascii ''repeat_char'') [36830, 32493, 37325, 22797, 27721, 23383]
            [[21024, 38500, 37325, 22797, 23383, 25110, 21512, 24182, 20026, 21512, 36866, 35789]]
            0.7 text)
         (finditer repeat_char_at text 0)"

text \<open>
  Check 5: \<^verbatim>\<open>begin = m.start(1) - 1\<close> is the index of the particle, and the hit is
  the particle itself. Group 1 takes part in every match of these patterns.
\<close>

definition particle_issue ::
  "ustr \<Rightarrow> uchar \<Rightarrow> ustr \<Rightarrow> ustr list \<Rightarrow> real \<Rightarrow> ustr \<Rightarrow> re_match \<Rightarrow> issue list" where
  "particle_issue rid x ev sugg conf text m =
     (case m_start1 m of
        None \<Rightarrow> []
      | Some g \<Rightarrow> [rules_make_issue rid (int g - 1) (int g - 1 + 1) text [x] ev sugg conf])"

definition particle_checks ::
  "ustr \<Rightarrow> uchar \<Rightarrow> ustr \<Rightarrow> ustr list \<Rightarrow> real \<Rightarrow> ustr \<Rightarrow> issue list" where
  "particle_checks rid x ev sugg conf text =
     concat (map (particle_issue rid x ev sugg conf text) (finditer (particle_at x) text 0))"

definition de_maybe_di_checks :: "ustr \<Rightarrow> issue list" where
  "de_maybe_di_checks =
     particle_checks (ascii ''de_maybe_di'') 30340
       [21487, 33021, 24212, 20026, 8220, 22320, 8221]
       [[23558, 8220, 30340, 8221, 25913, 20026, 8220, 22320, 8221]] 0.55"

definition di_maybe_de_checks :: "ustr \<Rightarrow> issue list" where
  "di_maybe_de_checks =
     particle_checks (ascii ''di_maybe_de'') 22320
       [21487, 33021, 24212, 20026, 8220, 30340, 8221]
       [[23558, 8220, 22320, 8221, 25913, 20026, 8220, 30340, 8221]] 0.55"

definition dei_maybe_de_checks :: "ustr \<Rightarrow> issue list" where
  "dei_maybe_de_checks =
     particle_checks (ascii ''dei_maybe_de'') 24471
       [21487, 33021, 24212, 20026, 8220, 22320, 47, 30340, 8221]
       [[26681, 25454, 19978, 19979, 25991, 35843, 25972, 8220, 24471, 8221, 30340, 29992, 27861]]
       0.5"

subsection \<open>\<^verbatim>\<open>run_rule_checks\<close>\<close>

definition run_rule_checks :: "ustr \<Rightarrow> issue list" where
  "run_rule_checks text =
     (if text = [] then []
      else multi_space_checks text @ space_before_cn_punct_checks text @
           repeat_char_checks text @ bracket_checks text @
           de_maybe_di_checks text @ di_maybe_de_checks text @ dei_maybe_de_checks text)"

section \<open>Lexicon engine (checker/lexicon.py)\<close>

text \<open>
  \<^verbatim>\<open>CONFUSION\<close> maps a one-character key to a list of strings (the built-in table
  merged with the override file, whose values may be any non-empty strings);
  \<^verbatim>\<open>VALID_WORDS\<close> is a set of strings. Both are built when the module is loaded
  and are parameters here.
\<close>

definition lex_make_issue ::
  "ustr \<Rightarrow> int \<Rightarrow> int \<Rightarrow> ustr \<Rightarrow> ustr \<Rightarrow> ustr \<Rightarrow> ustr list \<Rightarrow> real \<Rightarrow> issue" where
  "lex_make_issue rid b e text hit ev sugg conf =
     \<lparr> issue_type = ''lex'', rule_id = rid, issue_begin = b, issue_end = e,
       hit_text = hit, suggestions = sugg, evidence = ev, confidence = conf,
       context_left = py_slice text (max 0 (b - 8)) b,
       context_right = py_slice text e (e + 8) \<rparr>"

text \<open>The single-character scan: the body of \<^verbatim>\<open>for idx, ch in enumerate(text)\<close>.\<close>

definition confusion_issue :: "(uchar \<rightharpoonup> ustr list) \<Rightarrow> ustr \<Rightarrow> nat \<times> uchar \<Rightarrow> issue list" where
  "confusion_issue conf text p =
     (let idx = fst p; ch = snd p in
      case conf ch of
        None \<Rightarrow> []
      | Some alts \<Rightarrow>
          (let sugg = filter (\<lambda>c. c \<noteq> [ch]) alts in
           if sugg \<noteq> []
           then [lex_make_issue (ascii ''confusion_char'') (int idx) (int idx + 1) text [ch]
                   [21487, 33021, 20889, 38169, 23383] sugg 0.65]
           else []))"

definition confusion_checks :: "(uchar \<rightharpoonup> ustr list) \<Rightarrow> ustr \<Rightarrow> issue list" where
  "confusion_checks conf text = concat (map (confusion_issue conf text) (List.enumerate 0 text))"

text \<open>
  The list \<^verbatim>\<open>smart_sug\<close> of one window \<^verbatim>\<open>w\<close>: for each position and each
  alternative of the character there, the candidate with that position replaced,
  kept when it differs from \<^verbatim>\<open>w\<close> and is a valid word. The window always has two
  characters, so \<^verbatim>\<open>w[0]\<close> and \<^verbatim>\<open>w[1]\<close> exist.
\<close>

definition smart_sug :: "(uchar \<rightharpoonup> ustr list) \<Rightarrow> ustr set \<Rightarrow> ustr \<Rightarrow> ustr list" where
  "smart_sug conf valid w =
     concat (map (\<lambda>p.
       let pos = fst p; ch = snd p in
       concat (map (\<lambda>alt.
         if alt = [ch] then []
         else (let cand = (if pos = 0 then alt @ [w ! 1] else [w ! 0] @ alt)
               in if cand \<noteq> w \<and> cand \<in> valid then [cand] else []))
         (case conf ch of None \<Rightarrow> [] | Some alts \<Rightarrow> alts)))
       (List.enumerate 0 w))"

text \<open>
  The body of \<^verbatim>\<open>for i in range(length - 1)\<close>. \<^verbatim>\<open>sorted(set(smart_sug))\<close> is the
  list without duplicates, in ascending order.
\<close>

definition bigram_issue ::
  "(uchar \<rightharpoonup> ustr list) \<Rightarrow> ustr set \<Rightarrow> ustr \<Rightarrow> nat \<Rightarrow> issue list" where
  "bigram_issue conf valid text i =
     (let w = py_slice text (int i) (int i + 2); sug = smart_sug conf valid w in
      if sug \<noteq> []
      then [lex_make_issue (ascii ''confusion_bigram_suggested'') (int i) (int i + 2) text w
              [26367, 25442, 21518, 26500, 25104, 24120, 29992, 20108, 23383, 35789]
              (sort (remdups sug)) 0.72]
      else [])"

definition bigram_checks :: "(uchar \<rightharpoonup> ustr list) \<Rightarrow> ustr set \<Rightarrow> ustr \<Rightarrow> issue list" where
  "bigram_checks conf valid text =
     concat (map (bigram_issue conf valid text) [0..<length text - 1])"

definition run_lex_checks :: "(uchar \<rightharpoonup> ustr list) \<Rightarrow> ustr set \<Rightarrow> ustr \<Rightarrow> issue list" where
  "run_lex_checks conf valid text =
     (if text = [] then [] else confusion_checks conf text @ bigram_checks conf valid text)"

section \<open>Configurable pattern engine (checker/patterns.py)\<close>

text \<open>
  A compiled \<^verbatim>\<open>RegexRule\<close>. The pattern is configuration and the matcher is Python's
  \<^verbatim>\<open>re\<close>: the rule carries \<^verbatim>\<open>self.regex.finditer\<close> as a function from the text to
  its matches.
\<close>

record regex_rule =
  rx_id :: ustr
  rx_finditer :: "ustr \<Rightarrow> re_match list"
  rx_hint :: ustr
  rx_suggest :: "ustr list"
  rx_confidence :: real

definition regex_rule_run :: "regex_rule \<Rightarrow> ustr \<Rightarrow> issue list" where
  "regex_rule_run r text =
     map (\<lambda>m.
       \<lparr> issue_type = ''pattern'', rule_id = rx_id r,
         issue_begin = int (m_start m), issue_end = int (m_end m),
         hit_text = m_group text m, suggestions = rx_suggest r, evidence = rx_hint r,
         confidence = rx_confidence r,
         context_left = py_slice text (max 0 (int (m_start m) - 8)) (int (m_start m)),
         context_right = py_slice text (int (m_end m)) (int (m_end m) + 8) \<rparr>)
       (rx_finditer r text)"

definition run_pattern_checks :: "regex_rule list \<Rightarrow> ustr \<Rightarrow> issue list" where
  "run_pattern_checks rules text = concat (map (\<lambda>r. regex_rule_run r text) rules)"

section \<open>POS sequence engine (checker/pos\_patterns.py)\<close>

record pos_token =
  tok_word :: ustr
  tok_tag :: ustr
  tok_begin :: nat
  tok_end :: nat

text \<open>
  One condition of a rule's sequence: the keys \<^verbatim>\<open>word\<close>, \<^verbatim>\<open>regex\<close> and \<^verbatim>\<open>tag\<close> are
  each optional. \<^verbatim>\<open>regex\<close> is held as the test \<^verbatim>\<open>re.fullmatch(cond['regex'], word)\<close>.
\<close>

record pos_cond =
  cond_word :: "ustr option"
  cond_regex :: "(ustr \<Rightarrow> bool) option"
  cond_tag :: "ustr option"

record pos_rule =
  pr_id :: ustr
  pr_sequence :: "pos_cond list"
  pr_hint :: ustr
  pr_suggest :: "ustr list"
  pr_confidence :: real

definition cond_ok :: "pos_cond \<Rightarrow> pos_token \<Rightarrow> bool" where
  "cond_ok c tok =
     ((case cond_word c of None \<Rightarrow> True | Some w \<Rightarrow> tok_word tok = w) \<and>
      (case cond_regex c of None \<Rightarrow> True | Some f \<Rightarrow> f (tok_word tok)) \<and>
      (case cond_tag c of None \<Rightarrow> True | Some t \<Rightarrow> starts_with (tok_tag tok) t))"

text \<open>
  \<^verbatim>\<open>PosRule.match\<close> at one start index \<^verbatim>\<open>i\<close>, with the context that
  \<^verbatim>\<open>run_pos_checks\<close> adds to each match.
\<close>

definition pos_match_at :: "pos_rule \<Rightarrow> ustr \<Rightarrow> pos_token list \<Rightarrow> nat \<Rightarrow> issue list" where
  "pos_match_at r text tokens i =
     (let k = length (pr_sequence r); window = take k (drop i tokens) in
      if list_all2 cond_ok (pr_sequence r) window then
        (let b = int (tok_begin (tokens ! i)); e = int (tok_end (tokens ! (i + k - 1))) in
         [\<lparr> issue_type = ''pos'', rule_id = pr_id r, issue_begin = b, issue_end = e,
            hit_text = concat (map tok_word window), suggestions = pr_suggest r,
            evidence = pr_hint r, confidence = pr_confidence r,
            context_left = py_slice text (max 0 (b - 8)) b,
            context_right = py_slice text e (e + 8) \<rparr>])
      else [])"

text \<open>
  \<^verbatim>\<open>range(tok_count - seq_len + 1)\<close> is empty when the rule is longer than the token
  list.
\<close>

definition pos_rule_match :: "pos_rule \<Rightarrow> ustr \<Rightarrow> pos_token list \<Rightarrow> issue list" where
  "pos_rule_match r text tokens =
     (if pr_sequence r = [] then []
      else concat (map (pos_match_at r text tokens)
                     [0..<Suc (length tokens) - length (pr_sequence r)]))"

text \<open>
  The offsets of the tokens: each word is searched from the end of the previous
  token, and placed at that end when it is not found.
\<close>

fun tokenize_loop :: "ustr \<Rightarrow> nat \<Rightarrow> (ustr \<times> ustr) list \<Rightarrow> pos_token list" where
  "tokenize_loop text offset [] = []"
| "tokenize_loop text offset (wt # rest) =
     (let idx = (case py_find text (fst wt) offset of None \<Rightarrow> offset | Some i \<Rightarrow> i);
          e = idx + length (fst wt)
      in \<lparr> tok_word = fst wt, tok_tag = snd wt, tok_begin = idx, tok_end = e \<rparr>
         # tokenize_loop text e rest)"

text \<open>
  \<open>pseg\<close> is \<^verbatim>\<open>jieba.posseg\<close>'s \<^verbatim>\<open>cut\<close>, or \<open>None\<close> when the package is not installed.
\<close>

definition run_pos_checks ::
  "(ustr \<Rightarrow> (ustr \<times> ustr) list) option \<Rightarrow> pos_rule list \<Rightarrow> ustr \<Rightarrow> issue list" where
  "run_pos_checks pseg rules text =
     (case pseg of
        None \<Rightarrow> []
      | Some tagger \<Rightarrow>
          if text = [] then []
          else (let tokens = tokenize_loop text 0 (tagger text)
                in concat (map (\<lambda>r. pos_rule_match r text tokens) rules)))"

section \<open>Term engine (checker/terms.py)\<close>

text \<open>An entry of the list that \<^verbatim>\<open>load_terms\<close> returns.\<close>

record term_entry =
  te_term :: ustr
  te_hint :: ustr
  te_suggestions :: "ustr list"
  te_confidence :: real

definition term_issue :: "ustr \<Rightarrow> term_entry \<Rightarrow> nat \<Rightarrow> issue" where
  "term_issue text item idx =
     (let e = int idx + int (length (te_term item)) in
      \<lparr> issue_type = ''term'', rule_id = ascii ''invalid_term'',
        issue_begin = int idx, issue_end = e, hit_text = te_term item,
        suggestions = te_suggestions item, evidence = te_hint item,
        confidence = te_confidence item,
        context_left = py_slice text (max 0 (int idx - 8)) (int idx),
        context_right = py_slice text e (e + 8) \<rparr>)"

text \<open>
  The \<^verbatim>\<open>while True\<close> loop of one entry. It ends when \<^verbatim>\<open>find\<close> fails; with an empty
  term \<^verbatim>\<open>find\<close> never fails inside the text and the loop does not end, which is the
  value \<open>None\<close>.
\<close>

partial_function (option) term_loop ::
  "ustr \<Rightarrow> term_entry \<Rightarrow> nat \<Rightarrow> issue list \<Rightarrow> issue list option" where
  "term_loop text item start issues =
     (case py_find text (te_term item) start of
        None \<Rightarrow> Some issues
      | Some idx \<Rightarrow>
          term_loop text item (idx + length (te_term item))
            (issues @ [term_issue text item idx]))"

declare term_loop.simps [code]

fun terms_loop :: "ustr \<Rightarrow> term_entry list \<Rightarrow> issue list \<Rightarrow> issue list option" where
  "terms_loop text [] issues = Some issues"
| "terms_loop text (item # rest) issues =
     (case term_loop text item 0 issues of
        None \<Rightarrow> None
      | Some issues' \<Rightarrow> terms_loop text rest issues')"

definition run_term_checks :: "term_entry list \<Rightarrow> ustr \<Rightarrow> issue list option" where
  "run_term_checks terms text =
     (if text = [] then Some []
      else if terms = [] then Some []
      else terms_loop text terms [])"

section \<open>Spelling-model engine (checker/csc.py)\<close>

text \<open>
  One tuple of \<^verbatim>\<open>details\<close>: the original and the corrected characters and the two
  offsets, each offset as the value of \<^verbatim>\<open>int(...)\<close> on it, \<open>None\<close> when that raises.
\<close>

type_synonym csc_detail = "ustr \<times> ustr \<times> int option \<times> int option"

definition csc_issue :: "ustr \<Rightarrow> ustr \<Rightarrow> int \<Rightarrow> int \<Rightarrow> issue" where
  "csc_issue text new b e =
     \<lparr> issue_type = ''csc'', rule_id = ascii ''csc'', issue_begin = b, issue_end = e,
       hit_text = py_slice text b e, suggestions = [new],
       evidence = [25340, 20889, 32416, 38169, 27169, 22411, 24314, 35758],
       confidence = 0.9,
       context_left = py_slice text (max 0 (b - 8)) b,
       context_right = py_slice text e (e + 8) \<rparr>"

fun csc_loop :: "ustr \<Rightarrow> csc_detail list \<Rightarrow> issue list" where
  "csc_loop text [] = []"
| "csc_loop text ((old, new, Some b, Some e) # rest) =
     (if b < 0 \<or> e \<le> b \<or> int (length text) \<le> b then csc_loop text rest
      else csc_issue text new b e # csc_loop text rest)"
| "csc_loop text (d # rest) = csc_loop text rest"

text \<open>
  \<open>model\<close> is \<^verbatim>\<open>_CSC_MODEL\<close> after the attempt to load it (\<open>None\<close> when loading
  failed), as its method \<^verbatim>\<open>correct\<close>; the method gives \<open>None\<close> when it raises.
\<close>

definition run_csc ::
  "(ustr \<Rightarrow> (ustr \<times> csc_detail list) option) option \<Rightarrow> ustr \<Rightarrow> issue list" where
  "run_csc model text =
     (case model of
        None \<Rightarrow> []
      | Some correct \<Rightarrow>
          if text = [] then []
          else (case correct text of
                  None \<Rightarrow> []
                | Some res \<Rightarrow> csc_loop text (snd res)))"

section \<open>The aggregator (app.py)\<close>

subsection \<open>The request body\<close>

text \<open>
  A parsed JSON value. An object is the list of its members in the order of the
  document; as a Python dictionary, a later member with the same key wins.
  \<^verbatim>\<open>d.get(k)\<close> is \<^verbatim>\<open>None\<close> (here \<open>JNull\<close>) for a missing key.
\<close>

datatype json =
    JNull
  | JBool bool
  | JNum real
  | JStr ustr
  | JArr "json list"
  | JObj "(ustr \<times> json) list"

fun truthy :: "json \<Rightarrow> bool" where
  "truthy JNull = False"
| "truthy (JBool b) = b"
| "truthy (JNum x) = (x \<noteq> 0)"
| "truthy (JStr s) = (s \<noteq> [])"
| "truthy (JArr xs) = (xs \<noteq> [])"
| "truthy (JObj kvs) = (kvs \<noteq> [])"

definition dict_get :: "(ustr \<times> json) list \<Rightarrow> string \<Rightarrow> json" where
  "dict_get kvs k = (case map_of (rev kvs) (ascii k) of None \<Rightarrow> JNull | Some v \<Rightarrow> v)"

text \<open>
  A request: the body as \<^verbatim>\<open>request.get_json(silent=True)\<close> returns it (\<open>JNull\<close> when
  there is none or it does not parse), and the form field \<^verbatim>\<open>text\<close> when present.
\<close>

record request =
  req_json :: json
  req_form_text :: "ustr option"

subsection \<open>Configuration and collaborators\<close>

text \<open>
  The process-wide caches as the loaders built them, and the external
  collaborators. The friendly formatter is outside this development: it is a
  function of the issues and the text, \<open>None\<close> when it raises.
\<close>

typedecl friendly_issue

record env =
  confusion :: "uchar \<rightharpoonup> ustr list"
  valid_words :: "ustr set"
  regex_rules :: "regex_rule list"
  pseg :: "(ustr \<Rightarrow> (ustr \<times> ustr) list) option"
  pos_rules :: "pos_rule list"
  terms :: "term_entry list"
  csc_model :: "(ustr \<Rightarrow> (ustr \<times> csc_detail list) option) option"
  to_friendly :: "issue list \<Rightarrow> ustr \<Rightarrow> friendly_issue list option"

subsection \<open>\<^verbatim>\<open>api_check\<close>\<close>

datatype error = AttributeError

record summary =
  summary_count :: nat
  summary_by_type :: "(string \<times> nat) list"

record response =
  resp_issues :: "issue list"
  resp_summary :: summary
  resp_friendly_issues :: "friendly_issue list option"

definition default_modes :: json where
  "default_modes =
     JObj [(ascii ''rule'', JBool True), (ascii ''lex'', JBool True),
           (ascii ''pat'', JBool True), (ascii ''pos'', JBool True),
           (ascii ''csc'', JBool False)]"

text \<open>
  The test \<^verbatim>\<open>if modes.get(k)\<close> inside its \<^verbatim>\<open>try\<close>: when \<^verbatim>\<open>modes\<close> is not an
  object the call raises, the exception is swallowed and the engine does not run.
\<close>

definition mode_on :: "json \<Rightarrow> string \<Rightarrow> bool" where
  "mode_on modes k = (case modes of JObj kvs \<Rightarrow> truthy (dict_get kvs k) | _ \<Rightarrow> False)"

text \<open>
  The issues of the five switchable engines on \<open>text\<close>, appended in the order of
  the source.
\<close>

definition switched_issues :: "env \<Rightarrow> json \<Rightarrow> ustr \<Rightarrow> issue list" where
  "switched_issues cfg modes text =
     (if mode_on modes ''rule'' then run_rule_checks text else []) @
     (if mode_on modes ''lex'' then run_lex_checks (confusion cfg) (valid_words cfg) text else []) @
     (if mode_on modes ''pat'' then run_pattern_checks (regex_rules cfg) text else []) @
     (if mode_on modes ''pos'' then run_pos_checks (pseg cfg) (pos_rules cfg) text else []) @
     (if mode_on modes ''csc'' then run_csc (csc_model cfg) text else [])"

definition count_type :: "string \<Rightarrow> issue list \<Rightarrow> nat" where
  "count_type t issues = length (filter (\<lambda>i. issue_type i = t) issues)"

definition make_summary :: "issue list \<Rightarrow> summary" where
  "make_summary issues =
     \<lparr> summary_count = length issues,
       summary_by_type =
         [(''rule'', count_type ''rule'' issues), (''lex'', count_type ''lex'' issues),
          (''pattern'', count_type ''pattern'' issues), (''pos'', count_type ''pos'' issues),
          (''csc'', count_type ''csc'' issues), (''term'', count_type ''term'' issues)] \<rparr>"

text \<open>
  The data of the request: the JSON body, or the empty dictionary when the body
  is missing or falsy, replaced by the form's text in that case.
\<close>

definition request_data :: "request \<Rightarrow> json" where
  "request_data req =
     (let data = (if truthy (req_json req) then req_json req else JObj []) in
      case req_form_text req of
        Some t \<Rightarrow> if \<not> truthy data then JObj [(ascii ''text'', JStr t)] else data
      | None \<Rightarrow> data)"

text \<open>
  The three values read from the body: \<^verbatim>\<open>data.get('text') or ''\<close>,
  \<^verbatim>\<open>data.get('modes') or {...}\<close> and \<^verbatim>\<open>bool(data.get('friendly', True))\<close>.
\<close>

definition request_text :: "(ustr \<times> json) list \<Rightarrow> json" where
  "request_text kvs =
     (if truthy (dict_get kvs ''text'') then dict_get kvs ''text'' else JStr [])"

definition request_modes :: "(ustr \<times> json) list \<Rightarrow> json" where
  "request_modes kvs =
     (if truthy (dict_get kvs ''modes'') then dict_get kvs ''modes'' else default_modes)"

definition request_friendly :: "(ustr \<times> json) list \<Rightarrow> bool" where
  "request_friendly kvs =
     (case map_of (rev kvs) (ascii ''friendly'') of None \<Rightarrow> True | Some v \<Rightarrow> truthy v)"

text \<open>
  \<^verbatim>\<open>api_check\<close>. \<open>Some (Inl AttributeError)\<close> is the exception of \<^verbatim>\<open>data.get\<close> on a
  body that is not an object, or of \<^verbatim>\<open>.strip()\<close> on a text that is not a string;
  \<open>None\<close> is a term loop that does not end. The term engine runs last, outside
  every test of \<^verbatim>\<open>modes\<close>. Python's \<^verbatim>\<open>list.sort\<close> is stable, as \<open>sort_key\<close> is.
\<close>

definition api_check :: "env \<Rightarrow> request \<Rightarrow> (error + response) option" where
  "api_check cfg req =
     (case request_data req of
        JObj kvs \<Rightarrow>
          (case request_text kvs of
             JStr s \<Rightarrow>
               (let text = py_strip s; modes = request_modes kvs in
                case run_term_checks (terms cfg) text of
                  None \<Rightarrow> None
                | Some term_issues \<Rightarrow>
                    (let issues = sort_key issue_begin
                                    (switched_issues cfg modes text @ term_issues)
                     in Some (Inr \<lparr> resp_issues = issues,
                                    resp_summary = make_summary issues,
                                    resp_friendly_issues =
                                      (if request_friendly kvs
                                       then to_friendly cfg issues text else None) \<rparr>)))
           | _ \<Rightarrow> Some (Inl AttributeError))
      | _ \<Rightarrow> Some (Inl AttributeError))"

section \<open>Properties of the search\<close>

text \<open>\<open>occurs_at s sub k\<close>: the string \<open>sub\<close> stands in \<open>s\<close> at offset \<open>k\<close>, that is
  \<^verbatim>\<open>s[k:k+len(sub)] == sub\<close> with the whole occurrence inside \<open>s\<close>.\<close>

definition occurs_at :: "ustr \<Rightarrow> ustr \<Rightarrow> nat \<Rightarrow> bool" where
  "occurs_at text sub k = (k + length sub \<le> length text \<and> take (length sub) (drop k text) = sub)"

lemma starts_with_length: "starts_with t sub \<Longrightarrow> length sub \<le> length t"
proof -
  assume "starts_with t sub"
  then have "length (take (length sub) t) = length sub" by (simp add: starts_with_def)
  then show ?thesis by simp
qed

lemma occurs_at_starts_with:
  "occurs_at s sub k \<longleftrightarrow> k \<le> length s \<and> starts_with (drop k s) sub"
proof
  assume "occurs_at s sub k"
  then show "k \<le> length s \<and> starts_with (drop k s) sub"
    by (simp add: occurs_at_def starts_with_def)
next
  assume h: "k \<le> length s \<and> starts_with (drop k s) sub"
  then have "length sub \<le> length (drop k s)" using starts_with_length by blast
  then have "k + length sub \<le> length s" using h by simp linarith
  with h show "occurs_at s sub k" by (simp add: occurs_at_def starts_with_def)
qed

lemma find_at_Some:
  "find_at sub t i = Some j \<Longrightarrow>
     i \<le> j \<and> j - i \<le> length t \<and> starts_with (drop (j - i) t) sub \<and>
     (\<forall>k < j - i. \<not> starts_with (drop k t) sub)"
proof (induction t arbitrary: i)
  case Nil
  then show ?case by (simp add: starts_with_def split: if_splits)
next
  case (Cons c cs)
  show ?case
  proof (cases "starts_with (c # cs) sub")
    case True
    with Cons.prems show ?thesis by simp
  next
    case False
    with Cons.prems have f: "find_at sub cs (Suc i) = Some j" by simp
    from Cons.IH[OF f] have ih: "Suc i \<le> j" "j - Suc i \<le> length cs"
      "starts_with (drop (j - Suc i) cs) sub" "\<forall>k < j - Suc i. \<not> starts_with (drop k cs) sub"
      by auto
    have e: "j - i = Suc (j - Suc i)" using ih(1) by simp
    have "\<forall>k < j - i. \<not> starts_with (drop k (c # cs)) sub"
    proof (intro allI impI)
      fix k assume k: "k < j - i"
      show "\<not> starts_with (drop k (c # cs)) sub"
      proof (cases k)
        case 0 with False show ?thesis by simp
      next
        case (Suc k') with k e ih(4) show ?thesis by simp
      qed
    qed
    with ih e show ?thesis by simp
  qed
qed

lemma find_at_None:
  "find_at sub t i = None \<Longrightarrow> k \<le> length t \<Longrightarrow> \<not> starts_with (drop k t) sub"
proof (induction t arbitrary: i k)
  case Nil
  then show ?case by (simp add: starts_with_def split: if_splits)
next
  case (Cons c cs)
  from Cons.prems(1) have a: "\<not> starts_with (c # cs) sub" and f: "find_at sub cs (Suc i) = None"
    by (simp_all split: if_splits)
  show ?case
  proof (cases k)
    case 0 with a show ?thesis by simp
  next
    case (Suc k')
    with Cons.prems(2) Cons.IH[OF f, of k'] show ?thesis by simp
  qed
qed

lemma py_find_Some:
  assumes "py_find text sub start = Some idx"
  shows "start \<le> idx" and "occurs_at text sub idx"
    and "\<And>k. start \<le> k \<Longrightarrow> k < idx \<Longrightarrow> \<not> occurs_at text sub k"
proof -
  from assms have s: "start \<le> length text" and f: "find_at sub (drop start text) start = Some idx"
    by (simp_all add: py_find_def split: if_splits)
  note h = find_at_Some[OF f]
  from h show "start \<le> idx" by simp
  from h s have "idx - start + start = idx" "idx \<le> length text" by simp_all linarith
  with h show "occurs_at text sub idx"
    by (simp add: occurs_at_starts_with add.commute)
  fix k assume k: "start \<le> k" "k < idx"
  then have "k - start < idx - start" "k - start + start = k" by simp_all
  with h have "\<not> starts_with (drop (k - start) (drop start text)) sub" by blast
  with \<open>k - start + start = k\<close> have "\<not> starts_with (drop k text) sub" by simp
  then show "\<not> occurs_at text sub k" by (simp add: occurs_at_starts_with)
qed

lemma py_find_None:
  assumes "py_find text sub start = None" and "start \<le> k"
  shows "\<not> occurs_at text sub k"
proof (cases "length text < start")
  case True
  with assms(2) show ?thesis by (simp add: occurs_at_def)
next
  case False
  with assms(1) have f: "find_at sub (drop start text) start = None" by (simp add: py_find_def)
  show ?thesis
  proof
    assume o: "occurs_at text sub k"
    then have "k \<le> length text" "starts_with (drop k text) sub"
      by (simp_all add: occurs_at_starts_with)
    moreover have "k - start \<le> length (drop start text)" "drop (k - start) (drop start text) = drop k text"
      using assms(2) \<open>k \<le> length text\<close> by (simp_all add: add.commute)
    ultimately show False using find_at_None[OF f, of "k - start"] by simp
  qed
qed

lemma py_find_SomeI:
  assumes "start \<le> idx" "occurs_at text sub idx"
    and "\<And>k. start \<le> k \<Longrightarrow> k < idx \<Longrightarrow> \<not> occurs_at text sub k"
  shows "py_find text sub start = Some idx"
proof (cases "py_find text sub start")
  case None
  with py_find_None[OF None assms(1)] assms(2) show ?thesis by simp
next
  case (Some j)
  note h = py_find_Some[OF Some]
  have "j = idx"
  proof (rule ccontr)
    assume "j \<noteq> idx"
    then consider "j < idx" | "idx < j" by linarith
    then show False
    proof cases
      case 1 with assms(3)[of j] h show ?thesis by simp
    next
      case 2 with h(3)[of idx] assms show ?thesis by simp
    qed
  qed
  with Some show ?thesis by simp
qed

lemma py_find_NoneI:
  assumes "\<And>k. start \<le> k \<Longrightarrow> \<not> occurs_at text sub k"
  shows "py_find text sub start = None"
proof (cases "py_find text sub start")
  case None then show ?thesis .
next
  case (Some j)
  with py_find_Some[OF Some] assms[of j] show ?thesis by simp
qed

text \<open>
  The offsets at which the loop of one term entry finds its term, searching from
  \<open>start\<close>: the first occurrence at or after \<open>start\<close>, then the first one at or after
  the end of that match, and so on. (The loop itself does not end for the empty
  term; the list is cut there.)
\<close>

function term_matches :: "ustr \<Rightarrow> ustr \<Rightarrow> nat \<Rightarrow> nat list" where
  "term_matches text sub start =
     (case py_find text sub start of
        None \<Rightarrow> []
      | Some idx \<Rightarrow> if sub = [] then [] else idx # term_matches text sub (idx + length sub))"
  by pat_completeness auto
termination
proof (relation "measure (\<lambda>(text, sub, start). Suc (length text) - start)", goal_cases)
  case 1 show ?case by simp
next
  case (2 s sub start idx)
  from py_find_Some(1,2)[OF 2(1)] 2(2) show ?case
    by (cases sub) (auto simp: occurs_at_def)
qed

declare term_matches.simps [simp del]

lemma term_loop_matches:
  "te_term item \<noteq> [] \<Longrightarrow>
   term_loop text item start issues =
     Some (issues @ map (term_issue text item) (term_matches text (te_term item) start))"
proof (induction "text" "te_term item" start arbitrary: issues rule: term_matches.induct)
  case (1 s start)
  show ?case
  proof (cases "py_find s (te_term item) start")
    case None
    then show ?thesis
      by (subst term_loop.simps, subst term_matches.simps) simp
  next
    case (Some idx)
    with 1 show ?thesis
      by (subst term_loop.simps, subst term_matches.simps) simp
  qed
qed

section \<open>The term engine\<close>

text \<open>
  \<open>search_chain s sub start ms\<close>: the offsets \<open>ms\<close> are what repeated \<^verbatim>\<open>find\<close> calls
  return when the first search starts at \<open>start\<close> and each next search starts at the
  end of the previous match, up to the call that fails.
\<close>

fun search_chain :: "ustr \<Rightarrow> ustr \<Rightarrow> nat \<Rightarrow> nat list \<Rightarrow> bool" where
  "search_chain s sub start [] = (py_find s sub start = None)"
| "search_chain s sub start (m # ms) =
     (py_find s sub start = Some m \<and> search_chain s sub (m + length sub) ms)"

text \<open>All offsets at which \<open>sub\<close> occurs in \<open>s\<close>, ascending.\<close>

definition occurrences :: "ustr \<Rightarrow> ustr \<Rightarrow> nat list" where
  "occurrences s sub = filter (occurs_at s sub) [0..<Suc (length s)]"

text \<open>The issues of the term engine when every loop ends.\<close>

definition term_checks :: "term_entry list \<Rightarrow> ustr \<Rightarrow> issue list" where
  "term_checks ts s =
     concat (map (\<lambda>item. map (term_issue s item) (term_matches s (te_term item) 0)) ts)"

definition terms_loaded :: "term_entry list \<Rightarrow> bool" where
  "terms_loaded ts = list_all (\<lambda>e. te_term e \<noteq> []) ts"

lemma terms_loop_matches:
  "terms_loaded ts \<Longrightarrow>
   terms_loop s ts issues = Some (issues @ term_checks ts s)"
proof (induction ts arbitrary: issues)
  case Nil
  show ?case by (simp add: term_checks_def)
next
  case (Cons item rest)
  from Cons.prems have ne: "te_term item \<noteq> []" and r: "terms_loaded rest"
    by (simp_all add: terms_loaded_def)
  show ?case
    using Cons.IH[OF r] by (simp add: term_loop_matches[OF ne] term_checks_def)
qed

lemma term_matches_Nil_text: "sub \<noteq> [] \<Longrightarrow> term_matches [] sub start = []"
proof -
  assume ne: "sub \<noteq> []"
  have "py_find [] sub start = None"
    by (rule py_find_NoneI) (use ne in \<open>simp add: occurs_at_def\<close>)
  then show ?thesis by (subst term_matches.simps) simp
qed

lemma term_checks_Nil_text: "terms_loaded ts \<Longrightarrow> term_checks ts [] = []"
  by (induction ts) (simp_all add: term_checks_def terms_loaded_def term_matches_Nil_text)

lemma run_term_checks_total:
  "terms_loaded ts \<Longrightarrow> run_term_checks ts s = Some (term_checks ts s)"
proof -
  assume l: "terms_loaded ts"
  have "terms_loop s ts [] = Some (term_checks ts s)"
    using terms_loop_matches[OF l, of s "[]"] by simp
  moreover have "term_checks [] s = []" by (simp add: term_checks_def)
  ultimately show ?thesis
    using term_checks_Nil_text[OF l] by (simp add: run_term_checks_def)
qed

lemma search_chain_term_matches:
  "sub \<noteq> [] \<Longrightarrow> search_chain s sub start (term_matches s sub start)"
proof (induction s sub start rule: term_matches.induct)
  case (1 s sub start)
  show ?case
  proof (cases "py_find s sub start")
    case None
    then show ?thesis by (subst term_matches.simps) simp
  next
    case (Some idx)
    with 1 show ?thesis by (subst term_matches.simps) simp
  qed
qed

lemma search_chain_sound:
  "search_chain s sub start ms \<Longrightarrow>
     (\<forall>m \<in> set ms. start \<le> m \<and> occurs_at s sub m) \<and>
     sorted_wrt (\<lambda>a b. a + length sub \<le> b) ms"
proof (induction ms arbitrary: start)
  case Nil
  show ?case by simp
next
  case (Cons m ms)
  from Cons.prems have f: "py_find s sub start = Some m"
    and c: "search_chain s sub (m + length sub) ms" by simp_all
  from Cons.IH[OF c] py_find_Some(1,2)[OF f] show ?case by fastforce
qed

lemma search_chain_unique:
  "search_chain s sub start ms \<Longrightarrow> search_chain s sub start ms' \<Longrightarrow> ms = ms'"
proof (induction ms arbitrary: start ms')
  case Nil
  then show ?case by (cases ms') simp_all
next
  case (Cons m ms)
  then show ?case by (cases ms') auto
qed

lemma occurrences_iff: "k \<in> set (occurrences s sub) \<longleftrightarrow> occurs_at s sub k"
proof -
  have "occurs_at s sub k \<Longrightarrow> k < Suc (length s)" by (simp add: occurs_at_def)
  then show ?thesis by (auto simp: occurrences_def simp del: upt_Suc)
qed

lemma twice_chain:
  assumes ne: "sub \<noteq> []" and occ: "occurrences s sub = [p1, p2]" and sep: "p1 + length sub \<le> p2"
  shows "search_chain s sub 0 [p1, p2]"
proof -
  have iff: "\<And>k. occurs_at s sub k \<longleftrightarrow> k = p1 \<or> k = p2"
    using occurrences_iff[of _ s sub] occ by simp
  from ne have pos: "0 < length sub" by simp
  have 1: "py_find s sub 0 = Some p1"
    by (rule py_find_SomeI) (use iff sep pos in auto)
  have 2: "py_find s sub (p1 + length sub) = Some p2"
    by (rule py_find_SomeI) (use iff sep pos in auto)
  have 3: "py_find s sub (p2 + length sub) = None"
  proof (rule py_find_NoneI)
    fix k assume "p2 + length sub \<le> k"
    with sep pos have "k \<noteq> p1" "k \<noteq> p2" by linarith+
    with iff show "\<not> occurs_at s sub k" by simp
  qed
  from 1 2 3 show ?thesis by simp
qed

lemma term_matches_twice:
  assumes "sub \<noteq> []" "occurrences s sub = [p1, p2]" "p1 + length sub \<le> p2"
  shows "term_matches s sub 0 = [p1, p2]"
  using search_chain_unique[OF search_chain_term_matches[OF assms(1)] twice_chain[OF assms]] .

lemma term_issue_fields:
  "issue_type (term_issue s item m) = ''term''"
  "rule_id (term_issue s item m) = ascii ''invalid_term''"
  "issue_begin (term_issue s item m) = int m"
  "issue_end (term_issue s item m) = int m + int (length (te_term item))"
  "hit_text (term_issue s item m) = te_term item"
  by (simp_all add: term_issue_def Let_def)

lemma term_checks_fields:
  "i \<in> set (term_checks ts s) \<Longrightarrow> issue_type i = ''term'' \<and> rule_id i = ascii ''invalid_term''"
  by (auto simp: term_checks_def term_issue_fields)

text \<open>
  Claim C5. For each configured banned literal (non-empty, as \<^verbatim>\<open>load_terms\<close> keeps
  them) the term engine ends and emits one issue for each offset of
  \<open>term_matches\<close>: the offsets are those of repeated exact searches, the first from
  offset 0 and each next one from the end of the previous match
  (\<open>search_chain\<close>); each is an exact occurrence of the literal, and two matches
  of the same literal never overlap. In particular a literal that occurs exactly
  twice in the input, without overlap, gives exactly two issues, and every issue
  of the engine has \<^verbatim>\<open>rule_id\<close> \<^verbatim>\<open>invalid_term\<close>.
\<close>

theorem term_engine_search:
  assumes "terms_loaded ts"
  shows "run_term_checks ts s = Some (term_checks ts s) \<and>
         (\<forall>i \<in> set (term_checks ts s). rule_id i = ascii ''invalid_term'') \<and>
         (\<forall>item \<in> set ts.
            search_chain s (te_term item) 0 (term_matches s (te_term item) 0) \<and>
            (\<forall>m \<in> set (term_matches s (te_term item) 0). occurs_at s (te_term item) m) \<and>
            sorted_wrt (\<lambda>a b. a + length (te_term item) \<le> b) (term_matches s (te_term item) 0) \<and>
            (\<forall>p1 p2. occurrences s (te_term item) = [p1, p2] \<and> p1 + length (te_term item) \<le> p2 \<longrightarrow>
               term_matches s (te_term item) 0 = [p1, p2] \<and>
               run_term_checks [item] s = Some [term_issue s item p1, term_issue s item p2]))"
proof (intro conjI ballI allI impI)
  show "run_term_checks ts s = Some (term_checks ts s)"
    by (rule run_term_checks_total[OF assms])
next
  fix i assume "i \<in> set (term_checks ts s)"
  then show "rule_id i = ascii ''invalid_term''" by (simp add: term_checks_fields)
next
  fix item assume "item \<in> set ts"
  with assms have ne: "te_term item \<noteq> []" by (simp add: terms_loaded_def list_all_iff)
  note ch = search_chain_term_matches[OF ne, of s 0]
  show "search_chain s (te_term item) 0 (term_matches s (te_term item) 0)" by (rule ch)
  show "sorted_wrt (\<lambda>a b. a + length (te_term item) \<le> b) (term_matches s (te_term item) 0)"
    using search_chain_sound[OF ch] by simp
  { fix m assume "m \<in> set (term_matches s (te_term item) 0)"
    then show "occurs_at s (te_term item) m" using search_chain_sound[OF ch] by simp }
  { fix p1 p2
    assume h: "occurrences s (te_term item) = [p1, p2] \<and> p1 + length (te_term item) \<le> p2"
    then have tm: "term_matches s (te_term item) 0 = [p1, p2]"
      using term_matches_twice[OF ne] by blast
    show "term_matches s (te_term item) 0 = [p1, p2]" by (rule tm)
    have "terms_loaded [item]" using ne by (simp add: terms_loaded_def)
    from run_term_checks_total[OF this, of s] tm
    show "run_term_checks [item] s = Some [term_issue s item p1, term_issue s item p2]"
      by (simp add: term_checks_def) }
qed

theorem term_engine_search_witness:
  "terms_loaded [\<lparr> te_term = [97, 98], te_hint = [], te_suggestions = [], te_confidence = 0.8 \<rparr>] \<and>
   occurrences [97, 98, 120, 97, 98] [97, 98] = [0, 3] \<and>
   map (\<lambda>i. (rule_id i, issue_begin i, issue_end i, hit_text i))
     (the (run_term_checks
        [\<lparr> te_term = [97, 98], te_hint = [], te_suggestions = [], te_confidence = 0.8 \<rparr>]
        [97, 98, 120, 97, 98])) =
     [(ascii ''invalid_term'', 0, 2, [97, 98]), (ascii ''invalid_term'', 3, 5, [97, 98])]"
proof -
  let ?item = "\<lparr> te_term = [97, 98], te_hint = [], te_suggestions = [], te_confidence = 0.8 \<rparr>"
  have l: "terms_loaded [?item]" by (simp add: terms_loaded_def)
  have o: "occurrences [97, 98, 120, 97, 98] (te_term ?item) = [0, 3]"
    by (simp add: occurrences_def occurs_at_def upt_rec)
  have mem: "?item \<in> set [?item]" by simp
  have sep: "0 + length (te_term ?item) \<le> 3" by simp
  have "run_term_checks [?item] [97, 98, 120, 97, 98] =
          Some [term_issue [97, 98, 120, 97, 98] ?item 0, term_issue [97, 98, 120, 97, 98] ?item 3]"
    using term_engine_search[OF l, of "[97, 98, 120, 97, 98]", THEN conjunct2, THEN conjunct2,
        THEN bspec, OF mem, THEN conjunct2, THEN conjunct2, THEN conjunct2,
        THEN spec, THEN spec, THEN mp, OF conjI[OF o sep], THEN conjunct2] .
  with l o show ?thesis by (simp add: term_issue_fields)
qed

section \<open>The bracket scan\<close>

text \<open>
  Texts whose pairs are fully balanced, following the words of the specification:
  the empty text, a character that is neither an opener nor a closer, a balanced
  text enclosed in an opener and its own closer, and the concatenation of balanced
  texts.
\<close>

inductive balanced :: "ustr \<Rightarrow> bool" where
  balanced_empty: "balanced []"
| balanced_other: "\<not> is_opener c \<Longrightarrow> \<not> is_closer c \<Longrightarrow> balanced [c]"
| balanced_pair: "pairs a = Some b \<Longrightarrow> balanced xs \<Longrightarrow> balanced (a # xs @ [b])"
| balanced_append: "balanced xs \<Longrightarrow> balanced ys \<Longrightarrow> balanced (xs @ ys)"

definition is_bracket_issue :: "issue \<Rightarrow> bool" where
  "is_bracket_issue i =
     (rule_id i = ascii ''unpaired_bracket'' \<or> rule_id i = ascii ''unclosed_bracket'')"

lemma pairs_SomeD: "pairs a = Some b \<Longrightarrow> is_opener a \<and> is_closer b \<and> \<not> is_opener b"
  unfolding pairs_def is_opener_def is_closer_def pairs_items_def
  by (auto split: if_splits)

lemma opener_not_closer: "is_opener c \<Longrightarrow> \<not> is_closer c"
  unfolding is_opener_def is_closer_def pairs_items_def by auto

lemma bracket_loop_append:
  "bracket_loop s idx (xs @ ys) st =
     bracket_loop s (idx + length xs) ys (bracket_loop s idx xs st)"
  by (induction xs arbitrary: idx st) auto

lemma bracket_loop_balanced:
  "balanced xs \<Longrightarrow> bracket_loop s idx xs (stack, issues) = (stack, issues)"
proof (induction xs arbitrary: idx stack issues rule: balanced.induct)
  case balanced_empty
  show ?case by simp
next
  case (balanced_other c)
  then show ?case by (simp add: bracket_step_def)
next
  case (balanced_pair a b xs)
  from balanced_pair.hyps(1) have ab: "is_opener a" "is_closer b" "\<not> is_opener b"
    using pairs_SomeD by blast+
  have "bracket_loop s idx (a # xs @ [b]) (stack, issues) =
        bracket_loop s (Suc idx + length xs) [b]
          (bracket_loop s (Suc idx) xs (stack @ [(a, idx)], issues))"
    using ab(1) by (simp add: bracket_step_def bracket_loop_append)
  also have "\<dots> = bracket_loop s (Suc idx + length xs) [b] (stack @ [(a, idx)], issues)"
    by (simp only: balanced_pair.IH)
  also have "\<dots> = (stack, issues)"
    using ab balanced_pair.hyps(1) by (simp add: bracket_step_def)
  finally show ?case .
next
  case (balanced_append xs ys)
  then show ?case by (simp add: bracket_loop_append)
qed

lemma bracket_loop_foldl:
  "bracket_loop s idx xs st = foldl (bracket_step s) st (List.enumerate idx xs)"
  by (induction xs arbitrary: idx st) auto

lemma bracket_checks_balanced: "balanced s \<Longrightarrow> bracket_checks s = []"
  by (simp add: bracket_checks_def bracket_loop_balanced)

lemma bracket_issue_fields:
  "rule_id (unpaired_issue s idx ch) = ascii ''unpaired_bracket''"
  "issue_begin (unpaired_issue s idx ch) = int idx"
  "issue_end (unpaired_issue s idx ch) = int idx + 1"
  "hit_text (unpaired_issue s idx ch) = [ch]"
  "confidence (unpaired_issue s idx ch) = 0.6"
  "rule_id (unclosed_issue s (ch, idx)) = ascii ''unclosed_bracket''"
  "issue_begin (unclosed_issue s (ch, idx)) = int idx"
  "issue_end (unclosed_issue s (ch, idx)) = int idx + 1"
  "hit_text (unclosed_issue s (ch, idx)) = [ch]"
  "confidence (unclosed_issue s (ch, idx)) = 0.6"
  by (simp_all add: unpaired_issue_def unclosed_issue_def rules_make_issue_def)

lemma bracket_step_unpaired:
  "\<forall>i \<in> set (snd st). is_bracket_issue i \<Longrightarrow>
   \<forall>i \<in> set (snd (bracket_step s st p)). is_bracket_issue i"
  by (auto simp: bracket_step_def Let_def is_bracket_issue_def unpaired_issue_def
        rules_make_issue_def)

lemma bracket_loop_unpaired:
  "\<forall>i \<in> set (snd st). is_bracket_issue i \<Longrightarrow>
   \<forall>i \<in> set (snd (bracket_loop s idx xs st)). is_bracket_issue i"
proof (induction xs arbitrary: idx st)
  case Nil
  then show ?case by simp
next
  case (Cons c cs)
  show ?case
    using Cons.IH[OF bracket_step_unpaired[OF Cons.prems]] by simp
qed

lemma bracket_checks_all_bracket: "\<forall>i \<in> set (bracket_checks s). is_bracket_issue i"
proof -
  have "\<forall>i \<in> set (snd (bracket_loop s 0 s ([], []))). is_bracket_issue i"
    by (rule bracket_loop_unpaired) simp
  moreover have "\<forall>e. is_bracket_issue (unclosed_issue s e)"
    by (simp add: is_bracket_issue_def unclosed_issue_def rules_make_issue_def)
  ultimately show ?thesis by (auto simp: bracket_checks_def Let_def)
qed

lemma filter_span_issue:
  "rid \<noteq> ascii ''unpaired_bracket'' \<Longrightarrow> rid \<noteq> ascii ''unclosed_bracket'' \<Longrightarrow>
   filter is_bracket_issue (map (span_issue rid ev sugg conf s) ms) = []"
  by (induction ms) (simp_all add: is_bracket_issue_def span_issue_def rules_make_issue_def)

lemma particle_issue_rule_id:
  "i \<in> set (particle_issue rid x ev sugg conf s m) \<Longrightarrow> rule_id i = rid"
  by (cases "m_start1 m") (simp_all add: particle_issue_def rules_make_issue_def)

lemma particle_checks_rule_id:
  "i \<in> set (particle_checks rid x ev sugg conf s) \<Longrightarrow> rule_id i = rid"
  unfolding particle_checks_def using particle_issue_rule_id by fastforce

lemma filter_particle_checks:
  assumes "rid \<noteq> ascii ''unpaired_bracket''" "rid \<noteq> ascii ''unclosed_bracket''"
  shows "filter is_bracket_issue (particle_checks rid x ev sugg conf s) = []"
proof -
  have "\<forall>i \<in> set (particle_checks rid x ev sugg conf s). \<not> is_bracket_issue i"
    using assms particle_checks_rule_id[of _ rid x ev sugg conf s]
    unfolding is_bracket_issue_def by blast
  then show ?thesis by (simp only: filter_empty_conv) 
qed

lemma rule_ids_distinct:
  "ascii ''multi_space'' \<noteq> ascii ''unpaired_bracket''"
  "ascii ''multi_space'' \<noteq> ascii ''unclosed_bracket''"
  "ascii ''space_before_cn_punct'' \<noteq> ascii ''unpaired_bracket''"
  "ascii ''space_before_cn_punct'' \<noteq> ascii ''unclosed_bracket''"
  "ascii ''repeat_char'' \<noteq> ascii ''unpaired_bracket''"
  "ascii ''repeat_char'' \<noteq> ascii ''unclosed_bracket''"
  "ascii ''de_maybe_di'' \<noteq> ascii ''unpaired_bracket''"
  "ascii ''de_maybe_di'' \<noteq> ascii ''unclosed_bracket''"
  "ascii ''di_maybe_de'' \<noteq> ascii ''unpaired_bracket''"
  "ascii ''di_maybe_de'' \<noteq> ascii ''unclosed_bracket''"
  "ascii ''dei_maybe_de'' \<noteq> ascii ''unpaired_bracket''"
  "ascii ''dei_maybe_de'' \<noteq> ascii ''unclosed_bracket''"
  by (simp_all add: ascii_def)

lemma run_rule_checks_bracket:
  "filter is_bracket_issue (run_rule_checks s) = bracket_checks s"
proof (cases "s = []")
  case True
  then show ?thesis by (simp add: run_rule_checks_def bracket_checks_def)
next
  case False
  have "filter is_bracket_issue (bracket_checks s) = bracket_checks s"
    using bracket_checks_all_bracket by (simp add: filter_id_conv)
  with False show ?thesis
    by (simp add: run_rule_checks_def multi_space_checks_def space_before_cn_punct_checks_def
          repeat_char_checks_def de_maybe_di_checks_def di_maybe_de_checks_def
          dei_maybe_de_checks_def filter_span_issue filter_particle_checks rule_ids_distinct)
qed

text \<open>
  Claim C4. One step of the bracket scan pushes \<open>(ch, idx)\<close> on an opener; on a
  closer it pops the stack when the stack is non-empty and the closer expected by
  its top entry is the current character, and otherwise appends one unpaired issue
  at the closer's index and leaves the stack as it is; any other character changes
  nothing. The check is the scan over the enumerated text from the empty stack,
  followed by one unclosed issue for each entry left on the stack, from bottom to
  top; these are exactly the bracket issues of \<^verbatim>\<open>run_rule_checks\<close>. Both kinds of
  issue span one character at the recorded index, with confidence 0.6. Hence a
  text whose pairs are fully balanced has no bracket issue; the text U+FF08 U+6D4B
  U+8BD5 has exactly one, unclosed, at index 0 with the hit U+FF08; and the text
  U+6D4B U+8BD5 U+FF09 has exactly one, unpaired, at index 2, the index of U+FF09.
\<close>

theorem bracket_balance_scan:
  "(is_opener ch \<longrightarrow>
      bracket_step s (stack, issues) (idx, ch) = (stack @ [(ch, idx)], issues)) \<and>
   (is_closer ch \<longrightarrow>
      bracket_step s (stack, issues) (idx, ch) =
        (if stack \<noteq> [] \<and> pairs (fst (last stack)) = Some ch then (butlast stack, issues)
         else (stack, issues @ [unpaired_issue s idx ch]))) \<and>
   (\<not> is_opener ch \<and> \<not> is_closer ch \<longrightarrow>
      bracket_step s (stack, issues) (idx, ch) = (stack, issues)) \<and>
   bracket_checks s =
     snd (foldl (bracket_step s) ([], []) (List.enumerate 0 s)) @
     map (unclosed_issue s) (fst (foldl (bracket_step s) ([], []) (List.enumerate 0 s))) \<and>
   filter is_bracket_issue (run_rule_checks s) = bracket_checks s \<and>
   (rule_id (unpaired_issue s idx ch) = ascii ''unpaired_bracket'' \<and>
    issue_begin (unpaired_issue s idx ch) = int idx \<and>
    issue_end (unpaired_issue s idx ch) = int idx + 1 \<and>
    hit_text (unpaired_issue s idx ch) = [ch] \<and>
    confidence (unpaired_issue s idx ch) = 0.6) \<and>
   (rule_id (unclosed_issue s (ch, idx)) = ascii ''unclosed_bracket'' \<and>
    issue_begin (unclosed_issue s (ch, idx)) = int idx \<and>
    issue_end (unclosed_issue s (ch, idx)) = int idx + 1 \<and>
    hit_text (unclosed_issue s (ch, idx)) = [ch] \<and>
    confidence (unclosed_issue s (ch, idx)) = 0.6) \<and>
   (balanced s \<longrightarrow> bracket_checks s = []) \<and>
   bracket_checks [65288, 27979, 35797] = [unclosed_issue [65288, 27979, 35797] (65288, 0)] \<and>
   bracket_checks [27979, 35797, 65289] = [unpaired_issue [27979, 35797, 65289] 2 65289]"
proof -
  have 1: "is_opener ch \<longrightarrow>
      bracket_step s (stack, issues) (idx, ch) = (stack @ [(ch, idx)], issues)"
    by (simp add: bracket_step_def)
  have 2: "is_closer ch \<longrightarrow>
      bracket_step s (stack, issues) (idx, ch) =
        (if stack \<noteq> [] \<and> pairs (fst (last stack)) = Some ch then (butlast stack, issues)
         else (stack, issues @ [unpaired_issue s idx ch]))"
    using opener_not_closer[of ch] by (auto simp: bracket_step_def)
  have 3: "\<not> is_opener ch \<and> \<not> is_closer ch \<longrightarrow>
      bracket_step s (stack, issues) (idx, ch) = (stack, issues)"
    by (simp add: bracket_step_def)
  have 4: "bracket_checks s =
     snd (foldl (bracket_step s) ([], []) (List.enumerate 0 s)) @
     map (unclosed_issue s) (fst (foldl (bracket_step s) ([], []) (List.enumerate 0 s)))"
    by (simp add: bracket_checks_def bracket_loop_foldl Let_def)
  have 5: "balanced s \<longrightarrow> bracket_checks s = []"
    by (simp add: bracket_checks_balanced)
  have 6: "bracket_checks [65288, 27979, 35797] = [unclosed_issue [65288, 27979, 35797] (65288, 0)]"
    by (simp add: bracket_checks_def bracket_step_def is_opener_def is_closer_def pairs_items_def)
  have 7: "bracket_checks [27979, 35797, 65289] = [unpaired_issue [27979, 35797, 65289] 2 65289]"
    by (simp add: bracket_checks_def bracket_step_def is_opener_def is_closer_def pairs_items_def
          pairs_def numeral_2_eq_2)
  have 8: "filter is_bracket_issue (run_rule_checks s) = bracket_checks s"
    by (rule run_rule_checks_bracket)
  have 9: "rule_id (unpaired_issue s idx ch) = ascii ''unpaired_bracket'' \<and>
    issue_begin (unpaired_issue s idx ch) = int idx \<and>
    issue_end (unpaired_issue s idx ch) = int idx + 1 \<and>
    hit_text (unpaired_issue s idx ch) = [ch] \<and>
    confidence (unpaired_issue s idx ch) = 0.6"
    by (simp only: bracket_issue_fields simp_thms)
  have 10: "rule_id (unclosed_issue s (ch, idx)) = ascii ''unclosed_bracket'' \<and>
    issue_begin (unclosed_issue s (ch, idx)) = int idx \<and>
    issue_end (unclosed_issue s (ch, idx)) = int idx + 1 \<and>
    hit_text (unclosed_issue s (ch, idx)) = [ch] \<and>
    confidence (unclosed_issue s (ch, idx)) = 0.6"
    by (simp only: bracket_issue_fields simp_thms)
  show ?thesis
    by (rule conjI[OF 1 conjI[OF 2 conjI[OF 3 conjI[OF 4 conjI[OF 8 conjI[OF 9 conjI[OF 10
          conjI[OF 5 conjI[OF 6 7]]]]]]]]])
qed

theorem bracket_balance_scan_witness:
  "is_opener 40 \<and>
   bracket_step [40, 97, 41] ([], []) (0, 40) = ([(40, 0)], []) \<and>
   is_closer 41 \<and>
   bracket_step [40, 97, 41] ([(40, 0)], []) (2, 41) = ([], []) \<and>
   is_closer 93 \<and>
   bracket_step [40, 93] ([(40, 0)], []) (1, 93) = ([(40, 0)], [unpaired_issue [40, 93] 1 93]) \<and>
   balanced [40, 97, 41] \<and>
   bracket_checks [40, 97, 41] = []"
proof -
  have o: "is_opener 40" by (simp add: is_opener_def pairs_items_def)
  have c: "is_closer 41" "is_closer 93" by (simp_all add: is_closer_def pairs_items_def)
  have p: "pairs 40 = Some 41" "pairs 40 \<noteq> Some 93" by (simp_all add: pairs_def pairs_items_def)
  have "balanced [97]"
    by (rule balanced_other) (simp_all add: is_opener_def is_closer_def pairs_items_def)
  from balanced_pair[OF p(1) this] have b: "balanced [40, 97, 41]" by simp
  note t1 = bracket_balance_scan[where ch = 40 and s = "[40, 97, 41]" and stack = "[]"
      and issues = "[]" and idx = 0]
  note t2 = bracket_balance_scan[where ch = 41 and s = "[40, 97, 41]" and stack = "[(40, 0)]"
      and issues = "[]" and idx = 2]
  note t3 = bracket_balance_scan[where ch = 93 and s = "[40, 93]" and stack = "[(40, 0)]"
      and issues = "[]" and idx = 1]
  have 1: "bracket_step [40, 97, 41] ([], []) (0, 40) = ([(40, 0)], [])"
    using t1[THEN conjunct1] o by simp
  have 2: "bracket_step [40, 97, 41] ([(40, 0)], []) (2, 41) = ([], [])"
    using t2[THEN conjunct2, THEN conjunct1] c(1) p(1) by simp
  have 3: "bracket_step [40, 93] ([(40, 0)], []) (1, 93) =
             ([(40, 0)], [unpaired_issue [40, 93] 1 93])"
    using t3[THEN conjunct2, THEN conjunct1] c(2) p(2) by simp
  have 4: "bracket_checks [40, 97, 41] = []"
    using t2[THEN conjunct2, THEN conjunct2, THEN conjunct2, THEN conjunct2, THEN conjunct2,
        THEN conjunct2, THEN conjunct2, THEN conjunct1] b by simp
  from o c b 1 2 3 4 show ?thesis by simp
qed

section \<open>Offsets and hit texts\<close>

text \<open>
  The invariant of the issue record: the half-open interval lies inside the text
  and the hit is the slice it denotes.
\<close>

definition issue_within :: "ustr \<Rightarrow> issue \<Rightarrow> bool" where
  "issue_within s i =
     (0 \<le> issue_begin i \<and> issue_begin i \<le> issue_end i \<and> issue_end i \<le> int (length s) \<and>
      hit_text i = py_slice s (issue_begin i) (issue_end i))"

lemma norm_index_int [simp]: "norm_index n (int k) = min k n"
  by (simp add: norm_index_def)

lemma py_slice_int: "py_slice xs (int a) (int b) = take (b - a) (drop a xs)"
  by (cases "a \<le> length xs") (simp_all add: py_slice_def Let_def min_def)

lemma py_slice_int_Suc: "py_slice xs (int a) (int a + 1) = take 1 (drop a xs)"
proof -
  have "int a + 1 = int (Suc a)" by simp
  then show ?thesis by (simp only: py_slice_int) simp
qed

lemma py_slice_single: "j < length xs \<Longrightarrow> py_slice xs (int j) (int j + 1) = [xs ! j]"
  by (simp add: py_slice_int_Suc take_Suc_conv_app_nth hd_drop_conv_nth take_Suc)

lemma issue_within_rules:
  "a \<le> b \<Longrightarrow> b \<le> length s \<Longrightarrow> hit = take (b - a) (drop a s) \<Longrightarrow>
   issue_within s (rules_make_issue rid (int a) (int b) s hit ev sugg conf)"
  by (simp add: issue_within_def rules_make_issue_def py_slice_int)

subsection \<open>The bracket scan\<close>

definition bracket_entry_ok :: "ustr \<Rightarrow> uchar \<times> nat \<Rightarrow> bool" where
  "bracket_entry_ok s e = (snd e < length s \<and> s ! snd e = fst e)"

definition unpaired_ok :: "ustr \<Rightarrow> issue \<Rightarrow> bool" where
  "unpaired_ok s i = (\<exists>j < length s. i = unpaired_issue s j (s ! j))"

lemma bracket_step_inv:
  assumes "idx < length s" "s ! idx = ch"
    and "\<forall>e \<in> set (fst st). bracket_entry_ok s e" "\<forall>i \<in> set (snd st). unpaired_ok s i"
  shows "(\<forall>e \<in> set (fst (bracket_step s st (idx, ch))). bracket_entry_ok s e) \<and>
         (\<forall>i \<in> set (snd (bracket_step s st (idx, ch))). unpaired_ok s i)"
proof -
  have u: "unpaired_ok s (unpaired_issue s idx ch)"
    using assms(1,2) unfolding unpaired_ok_def by blast
  have e: "bracket_entry_ok s (ch, idx)"
    using assms(1,2) by (simp add: bracket_entry_ok_def)
  have b: "\<forall>e \<in> set (butlast (fst st)). bracket_entry_ok s e"
    using assms(3) by (meson in_set_butlastD)
  show ?thesis
    using assms(3,4) u e b by (simp add: bracket_step_def Let_def)
qed

lemma bracket_loop_inv:
  assumes "s = pre @ xs" "idx = length pre"
    and "\<forall>e \<in> set (fst st). bracket_entry_ok s e" "\<forall>i \<in> set (snd st). unpaired_ok s i"
  shows "(\<forall>e \<in> set (fst (bracket_loop s idx xs st)). bracket_entry_ok s e) \<and>
         (\<forall>i \<in> set (snd (bracket_loop s idx xs st)). unpaired_ok s i)"
  using assms
proof (induction xs arbitrary: pre idx st)
  case Nil
  then show ?case by simp
next
  case (Cons c cs)
  have i: "idx < length s" "s ! idx = c" using Cons.prems(1,2) by simp_all
  note st = bracket_step_inv[OF i Cons.prems(3,4)]
  have "s = (pre @ [c]) @ cs" "Suc idx = length (pre @ [c])" using Cons.prems(1,2) by simp_all
  from Cons.IH[OF this st[THEN conjunct1] st[THEN conjunct2]] show ?case by simp
qed

lemma bracket_checks_cases:
  assumes "i \<in> set (bracket_checks s)"
  shows "\<exists>j < length s. i = unpaired_issue s j (s ! j) \<or> i = unclosed_issue s (s ! j, j)"
proof -
  let ?st = "bracket_loop s 0 s ([], [])"
  have inv: "(\<forall>e \<in> set (fst ?st). bracket_entry_ok s e) \<and> (\<forall>i \<in> set (snd ?st). unpaired_ok s i)"
    by (rule bracket_loop_inv[where pre = "[]"]) simp_all
  from assms consider "i \<in> set (snd ?st)" | e where "e \<in> set (fst ?st)" "i = unclosed_issue s e"
    by (auto simp: bracket_checks_def Let_def)
  then show ?thesis
  proof cases
    case 1
    with inv show ?thesis unfolding unpaired_ok_def by blast
  next
    case 2
    with inv have "snd e < length s" "s ! snd e = fst e" by (simp_all add: bracket_entry_ok_def)
    then have "i = unclosed_issue s (s ! snd e, snd e)" using 2(2) by simp
    with \<open>snd e < length s\<close> show ?thesis by blast
  qed
qed

lemma issue_within_unpaired: "j < length s \<Longrightarrow> issue_within s (unpaired_issue s j (s ! j))"
  by (simp add: issue_within_def unpaired_issue_def rules_make_issue_def py_slice_single)

lemma issue_within_unclosed: "j < length s \<Longrightarrow> issue_within s (unclosed_issue s (s ! j, j))"
  by (simp add: issue_within_def unclosed_issue_def rules_make_issue_def py_slice_single)

lemma bracket_checks_within: "i \<in> set (bracket_checks s) \<Longrightarrow> issue_within s i"
  using bracket_checks_cases issue_within_unpaired issue_within_unclosed by blast

lemma bracket_checks_type: "i \<in> set (bracket_checks s) \<Longrightarrow> issue_type i = ''rule''"
proof -
  assume "i \<in> set (bracket_checks s)"
  then obtain j where "i = unpaired_issue s j (s ! j) \<or> i = unclosed_issue s (s ! j, j)"
    using bracket_checks_cases by blast
  then show ?thesis
    by (auto simp: unpaired_issue_def unclosed_issue_def rules_make_issue_def)
qed

subsection \<open>The regular-expression checks\<close>

definition match_within :: "ustr \<Rightarrow> re_match \<Rightarrow> bool" where
  "match_within s m = (m_start m \<le> m_end m \<and> m_end m \<le> length s)"

lemma finditer_all:
  assumes "\<And>pos m. pos < length s \<Longrightarrow> match_at s pos = Some m \<Longrightarrow> Q m"
  shows "\<forall>m \<in> set (finditer match_at s pos). Q m"
  using assms
proof (induction match_at s pos rule: finditer.induct)
  case (1 match_at s pos)
  show ?case
  proof (cases "length s \<le> pos")
    case True
    then show ?thesis by simp
  next
    case False
    show ?thesis
    proof (cases "match_at s pos")
      case None
      from "1.IH"(1)[OF False None "1.prems"] False None show ?thesis by simp
    next
      case (Some m)
      from "1.IH"(2)[OF False Some "1.prems"]
      have "\<forall>m \<in> set (finditer match_at s (max (m_end m) (Suc pos))). Q m" by simp
      moreover have "Q m" using "1.prems"[of pos m] False Some by simp
      ultimately show ?thesis using False Some by simp
    qed
  qed
qed

lemma run_end_le: "pos \<le> length s \<Longrightarrow> run_end P s pos \<le> length s"
proof -
  assume "pos \<le> length s"
  moreover have "length (takeWhile P (drop pos s)) \<le> length (drop pos s)"
    by (rule length_takeWhile_le)
  ultimately show ?thesis by (simp add: run_end_def)
qed

lemma multi_space_at_within:
  "pos < length s \<Longrightarrow> multi_space_at s pos = Some m \<Longrightarrow> match_within s m"
  using run_end_le[of pos s "\<lambda>c. c = 12288 \<or> is_space c"]
  by (auto simp: multi_space_at_def match_within_def Let_def split: if_splits)

lemma space_before_cn_punct_at_within:
  "pos < length s \<Longrightarrow> space_before_cn_punct_at s pos = Some m \<Longrightarrow> match_within s m"
  by (auto simp: space_before_cn_punct_at_def match_within_def Let_def split: if_splits)

lemma repeat_char_at_within:
  "pos < length s \<Longrightarrow> repeat_char_at s pos = Some m \<Longrightarrow> match_within s m"
  using run_end_le[of "Suc pos" s "\<lambda>c. c = s ! pos"]
  by (auto simp: repeat_char_at_def match_within_def Let_def split: if_splits)

lemma span_issue_within: "match_within s m \<Longrightarrow> issue_within s (span_issue rid ev sugg conf s m)"
  by (simp add: match_within_def issue_within_def span_issue_def rules_make_issue_def m_group_def)

lemma span_issue_type: "issue_type (span_issue rid ev sugg conf s m) = ''rule''"
  by (simp add: span_issue_def rules_make_issue_def)

lemma span_checks_ok:
  assumes "\<And>pos m. pos < length s \<Longrightarrow> match_at s pos = Some m \<Longrightarrow> match_within s m"
    and "i \<in> set (map (span_issue rid ev sugg conf s) (finditer match_at s 0))"
  shows "issue_within s i \<and> issue_type i = ''rule''"
proof -
  from assms(2) obtain m where m: "m \<in> set (finditer match_at s 0)"
    and i: "i = span_issue rid ev sugg conf s m" by auto
  from finditer_all[of s match_at "match_within s" 0] assms(1) m have "match_within s m" by blast
  with i show ?thesis by (simp add: span_issue_within span_issue_type)
qed

definition particle_match_ok :: "uchar \<Rightarrow> ustr \<Rightarrow> re_match \<Rightarrow> bool" where
  "particle_match_ok x s m =
     (\<exists>g. m_start1 m = Some g \<and> 0 < g \<and> g \<le> length s \<and> s ! (g - 1) = x)"

lemma particle_at_ok:
  "particle_at x s pos = Some m \<Longrightarrow> particle_match_ok x s m"
  by (auto simp: particle_at_def particle_match_ok_def cjk_at_def char_at_def split: if_splits)

lemma particle_issue_ok:
  assumes "particle_match_ok x s m" "i \<in> set (particle_issue rid x ev sugg conf s m)"
  shows "issue_within s i \<and> issue_type i = ''rule''"
proof -
  from assms(1) obtain g where g: "m_start1 m = Some g" "0 < g" "g \<le> length s" "s ! (g - 1) = x"
    unfolding particle_match_ok_def by blast
  then have e: "int g - 1 = int (g - 1)" by simp
  from g have lt: "g - 1 < length s" by simp
  from assms(2) g(1) have i: "i = rules_make_issue rid (int (g - 1)) (int (g - 1) + 1) s [x] ev sugg conf"
    by (simp add: particle_issue_def e)
  have "hit_text i = py_slice s (int (g - 1)) (int (g - 1) + 1)"
    using py_slice_single[OF lt] g(4) i by (simp add: rules_make_issue_def)
  with i lt show ?thesis by (simp add: issue_within_def rules_make_issue_def)
qed

lemma particle_checks_ok:
  assumes "i \<in> set (particle_checks rid x ev sugg conf s)"
  shows "issue_within s i \<and> issue_type i = ''rule''"
proof -
  from assms obtain m where m: "m \<in> set (finditer (particle_at x) s 0)"
    and i: "i \<in> set (particle_issue rid x ev sugg conf s m)"
    by (auto simp: particle_checks_def)
  have "\<forall>m \<in> set (finditer (particle_at x) s 0). particle_match_ok x s m"
    by (rule finditer_all) (rule particle_at_ok)
  with m i show ?thesis using particle_issue_ok by blast
qed

lemma run_rule_checks_ok:
  assumes "i \<in> set (run_rule_checks s)"
  shows "issue_within s i \<and> issue_type i = ''rule''"
proof -
  from assms have ne: "s \<noteq> []" by (auto simp: run_rule_checks_def)
  from assms ne consider
      "i \<in> set (multi_space_checks s)" | "i \<in> set (space_before_cn_punct_checks s)"
    | "i \<in> set (repeat_char_checks s)" | "i \<in> set (bracket_checks s)"
    | "i \<in> set (de_maybe_di_checks s)" | "i \<in> set (di_maybe_de_checks s)"
    | "i \<in> set (dei_maybe_de_checks s)"
    by (auto simp: run_rule_checks_def)
  then show ?thesis
  proof cases
    case 1
    then show ?thesis unfolding multi_space_checks_def
      by (rule span_checks_ok[rotated]) (rule multi_space_at_within)
  next
    case 2
    then show ?thesis unfolding space_before_cn_punct_checks_def
      by (rule span_checks_ok[rotated]) (rule space_before_cn_punct_at_within)
  next
    case 3
    then show ?thesis unfolding repeat_char_checks_def
      by (rule span_checks_ok[rotated]) (rule repeat_char_at_within)
  next
    case 4
    then show ?thesis by (simp add: bracket_checks_within bracket_checks_type)
  next
    case 5
    then show ?thesis unfolding de_maybe_di_checks_def by (rule particle_checks_ok)
  next
    case 6
    then show ?thesis unfolding di_maybe_de_checks_def by (rule particle_checks_ok)
  next
    case 7
    then show ?thesis unfolding dei_maybe_de_checks_def by (rule particle_checks_ok)
  qed
qed

subsection \<open>The lexicon engine\<close>

lemma issue_within_lex:
  "a \<le> b \<Longrightarrow> b \<le> length s \<Longrightarrow> hit = py_slice s (int a) (int b) \<Longrightarrow>
   issue_within s (lex_make_issue rid (int a) (int b) s hit ev sugg conf)"
  by (simp add: issue_within_def lex_make_issue_def)

lemma confusion_issue_ok:
  assumes "idx < length s" "i \<in> set (confusion_issue conf s (idx, s ! idx))"
  shows "issue_within s i \<and> issue_type i = ''lex''"
proof -
  from assms(2) obtain sugg where
    i: "i = lex_make_issue (ascii ''confusion_char'') (int idx) (int idx + 1) s [s ! idx]
             [21487, 33021, 20889, 38169, 23383] sugg 0.65"
    by (auto simp: confusion_issue_def Let_def split: option.splits if_splits)
  have "hit_text i = py_slice s (issue_begin i) (issue_end i)"
    using py_slice_single[OF assms(1)] i by (simp add: lex_make_issue_def)
  with assms(1) i show ?thesis by (simp add: issue_within_def lex_make_issue_def)
qed

lemma confusion_checks_ok:
  assumes "i \<in> set (confusion_checks conf s)"
  shows "issue_within s i \<and> issue_type i = ''lex''"
proof -
  from assms obtain p where p: "p \<in> set (List.enumerate 0 s)"
    and i: "i \<in> set (confusion_issue conf s p)"
    by (auto simp: confusion_checks_def)
  from p have "fst p < length s" "s ! fst p = snd p" by (simp_all add: in_set_enumerate_eq)
  then have "p = (fst p, s ! fst p)" by simp
  with i confusion_issue_ok[OF \<open>fst p < length s\<close>, of i conf] show ?thesis by metis
qed

lemma bigram_issue_ok:
  assumes "k + 2 \<le> length s" "i \<in> set (bigram_issue conf valid s k)"
  shows "issue_within s i \<and> issue_type i = ''lex''"
proof -
  have e: "int k + 2 = int (k + 2)" by simp
  from assms(2) obtain sugg where
    i: "i = lex_make_issue (ascii ''confusion_bigram_suggested'') (int k) (int (k + 2)) s
             (py_slice s (int k) (int (k + 2)))
             [26367, 25442, 21518, 26500, 25104, 24120, 29992, 20108, 23383, 35789] sugg 0.72"
    unfolding bigram_issue_def Let_def e by (auto split: if_splits)
  have "issue_within s i"
    unfolding i by (rule issue_within_lex) (use assms(1) in simp_all)
  moreover have "issue_type i = ''lex''" unfolding i by (simp add: lex_make_issue_def)
  ultimately show ?thesis ..
qed

lemma bigram_checks_ok:
  assumes "i \<in> set (bigram_checks conf valid s)"
  shows "issue_within s i \<and> issue_type i = ''lex''"
proof -
  from assms obtain k where k: "k < length s - 1" and i: "i \<in> set (bigram_issue conf valid s k)"
    by (auto simp: bigram_checks_def)
  from k have "k + 2 \<le> length s" by simp
  from bigram_issue_ok[OF this i] show ?thesis .
qed

lemma run_lex_checks_ok:
  "i \<in> set (run_lex_checks conf valid s) \<Longrightarrow> issue_within s i \<and> issue_type i = ''lex''"
  using confusion_checks_ok bigram_checks_ok
  by (auto simp: run_lex_checks_def split: if_splits)

subsection \<open>The pattern engine\<close>

lemma run_pattern_checks_cases:
  assumes "i \<in> set (run_pattern_checks rules s)"
  shows "\<exists>r \<in> set rules. \<exists>m \<in> set (rx_finditer r s).
           issue_type i = ''pattern'' \<and> issue_begin i = int (m_start m) \<and>
           issue_end i = int (m_end m) \<and> hit_text i = m_group s m"
proof -
  from assms obtain r m where r: "r \<in> set rules" and m: "m \<in> set (rx_finditer r s)"
    and i: "i = \<lparr> issue_type = ''pattern'', rule_id = rx_id r,
         issue_begin = int (m_start m), issue_end = int (m_end m),
         hit_text = m_group s m, suggestions = rx_suggest r, evidence = rx_hint r,
         confidence = rx_confidence r,
         context_left = py_slice s (max 0 (int (m_start m) - 8)) (int (m_start m)),
         context_right = py_slice s (int (m_end m)) (int (m_end m) + 8) \<rparr>"
    by (auto simp: run_pattern_checks_def regex_rule_run_def)
  have "issue_type i = ''pattern'' \<and> issue_begin i = int (m_start m) \<and>
        issue_end i = int (m_end m) \<and> hit_text i = m_group s m"
    unfolding i by simp
  with r m show ?thesis by blast
qed

lemma run_pattern_checks_type:
  "i \<in> set (run_pattern_checks rules s) \<Longrightarrow> issue_type i = ''pattern''"
  using run_pattern_checks_cases by blast

lemma run_pattern_checks_within:
  assumes "\<forall>r \<in> set rules. \<forall>m \<in> set (rx_finditer r s). match_within s m"
    and "i \<in> set (run_pattern_checks rules s)"
  shows "issue_within s i"
proof -
  from run_pattern_checks_cases[OF assms(2)] obtain r m where
    "r \<in> set rules" "m \<in> set (rx_finditer r s)" and
    f: "issue_begin i = int (m_start m)" "issue_end i = int (m_end m)" "hit_text i = m_group s m"
    by blast
  with assms(1) have "match_within s m" by blast
  with f show ?thesis by (simp add: issue_within_def match_within_def m_group_def)
qed

subsection \<open>The term engine\<close>

lemma term_issue_within:
  assumes "occurs_at s (te_term item) m"
  shows "issue_within s (term_issue s item m)"
proof -
  let ?n = "length (te_term item)"
  from assms have b: "m + ?n \<le> length s" and t: "take ?n (drop m s) = te_term item"
    by (simp_all add: occurs_at_def)
  have e: "int m + int ?n = int (m + ?n)" by simp
  have "py_slice s (int m) (int (m + ?n)) = te_term item"
    using t by (simp only: py_slice_int) simp
  with b show ?thesis
    by (simp only: issue_within_def term_issue_fields e) simp
qed

lemma term_checks_within:
  assumes "terms_loaded ts" "i \<in> set (term_checks ts s)"
  shows "issue_within s i"
proof -
  from assms(2) obtain item m where item: "item \<in> set ts"
    and m: "m \<in> set (term_matches s (te_term item) 0)" and i: "i = term_issue s item m"
    by (auto simp: term_checks_def)
  from assms(1) item have "te_term item \<noteq> []" by (simp add: terms_loaded_def list_all_iff)
  from search_chain_sound[OF search_chain_term_matches[OF this, of s 0]] m
  have "occurs_at s (te_term item) m" by blast
  with i show ?thesis by (simp add: term_issue_within)
qed

subsection \<open>The spelling-model engine\<close>

definition csc_issue_ok :: "ustr \<Rightarrow> issue \<Rightarrow> bool" where
  "csc_issue_ok s i =
     (0 \<le> issue_begin i \<and> issue_begin i < issue_end i \<and> issue_begin i < int (length s) \<and>
      hit_text i = py_slice s (issue_begin i) (issue_end i))"

lemma csc_loop_ok:
  "i \<in> set (csc_loop s details) \<Longrightarrow> csc_issue_ok s i \<and> issue_type i = ''csc''"
proof (induction s details rule: csc_loop.induct)
  case (2 s old new b e rest)
  then show ?case
    by (auto simp: csc_issue_ok_def csc_issue_def split: if_splits)
qed simp_all

lemma run_csc_ok:
  "i \<in> set (run_csc model s) \<Longrightarrow> csc_issue_ok s i \<and> issue_type i = ''csc''"
proof -
  assume "i \<in> set (run_csc model s)"
  then obtain details where "i \<in> set (csc_loop s details)"
    by (auto simp: run_csc_def split: option.splits if_splits)
  then show ?thesis by (rule csc_loop_ok)
qed

subsection \<open>The POS engine\<close>

text \<open>
  \<open>chained off toks\<close>: each token starts no earlier than the end of the one before
  it (\<open>off\<close> for the first) and ends no earlier than it starts. \<open>contiguous\<close>: each
  token starts exactly there and spans its word.
\<close>

fun chained :: "nat \<Rightarrow> pos_token list \<Rightarrow> bool" where
  "chained off [] = True"
| "chained off (t # ts) = (off \<le> tok_begin t \<and> tok_begin t \<le> tok_end t \<and> chained (tok_end t) ts)"

fun contiguous :: "nat \<Rightarrow> pos_token list \<Rightarrow> bool" where
  "contiguous off [] = True"
| "contiguous off (t # ts) =
     (tok_begin t = off \<and> tok_end t = off + length (tok_word t) \<and> contiguous (tok_end t) ts)"

lemma tokenize_loop_length: "length (tokenize_loop s off wts) = length wts"
  by (induction wts arbitrary: off) (simp_all add: Let_def)

lemma tokenize_loop_chained: "chained off (tokenize_loop s off wts)"
proof (induction wts arbitrary: off)
  case Nil
  show ?case by simp
next
  case (Cons wt rest)
  have "off \<le> (case py_find s (fst wt) off of None \<Rightarrow> off | Some i \<Rightarrow> i)"
    using py_find_Some(1)[of s "fst wt" off] by (cases "py_find s (fst wt) off") simp_all
  then show ?case using Cons.IH by (simp add: Let_def)
qed

lemma tokenize_loop_contiguous:
  "s = pre @ concat (map fst wts) @ post \<Longrightarrow>
   contiguous (length pre) (tokenize_loop s (length pre) wts) \<and>
   map tok_word (tokenize_loop s (length pre) wts) = map fst wts"
proof (induction wts arbitrary: pre)
  case Nil
  show ?case by simp
next
  case (Cons wt rest)
  let ?w = "fst wt"
  have s: "s = pre @ ?w @ (concat (map fst rest) @ post)" using Cons.prems by simp
  have "occurs_at s ?w (length pre)" unfolding s by (simp add: occurs_at_def)
  then have f: "py_find s ?w (length pre) = Some (length pre)"
    by (intro py_find_SomeI) simp_all
  have "s = (pre @ ?w) @ concat (map fst rest) @ post" using s by simp
  from Cons.IH[OF this] f show ?case by (simp add: Let_def)
qed

lemma chained_mono: "chained off ts \<Longrightarrow> off' \<le> off \<Longrightarrow> chained off' ts"
  by (cases ts) simp_all

lemma chained_nth:
  "chained off ts \<Longrightarrow> i \<le> j \<Longrightarrow> j < length ts \<Longrightarrow>
     off \<le> tok_begin (ts ! i) \<and> tok_begin (ts ! i) \<le> tok_end (ts ! j)"
proof (induction ts arbitrary: off i j)
  case Nil
  then show ?case by simp
next
  case (Cons t ts)
  show ?case
  proof (cases j)
    case 0
    with Cons.prems show ?thesis by simp
  next
    case (Suc j')
    note j = this
    show ?thesis
    proof (cases i)
      case 0
      from Cons.prems j have "chained (tok_end t) ts" "j' < length ts" by simp_all
      from Cons.IH[OF this(1) le_refl this(2)]
      have "tok_end t \<le> tok_begin (ts ! j')" "tok_begin (ts ! j') \<le> tok_end (ts ! j')" by simp_all
      with Cons.prems(1) 0 j show ?thesis by simp
    next
      case (Suc i')
      from Cons.prems j Suc have "chained (tok_end t) ts" "i' \<le> j'" "j' < length ts" by simp_all
      from Cons.IH[OF this] Cons.prems(1) Suc j show ?thesis by simp
    qed
  qed
qed

lemma contiguous_append:
  "contiguous off (as @ bs) \<longleftrightarrow>
     contiguous off as \<and> contiguous (off + length (concat (map tok_word as))) bs"
proof (induction as arbitrary: off)
  case Nil
  show ?case by simp
next
  case (Cons t ts)
  show ?case
  proof (cases "tok_begin t = off \<and> tok_end t = off + length (tok_word t)")
    case False
    then show ?thesis by auto
  next
    case True
    then have e: "off + length (concat (map tok_word (t # ts))) =
                  tok_end t + length (concat (map tok_word ts))" by simp
    have "contiguous off ((t # ts) @ bs) \<longleftrightarrow> contiguous (tok_end t) (ts @ bs)"
      using True by simp
    also have "\<dots> \<longleftrightarrow> contiguous (tok_end t) ts \<and>
                 contiguous (tok_end t + length (concat (map tok_word ts))) bs"
      by (rule Cons.IH)
    also have "\<dots> \<longleftrightarrow> contiguous off (t # ts) \<and>
                 contiguous (off + length (concat (map tok_word (t # ts)))) bs"
      unfolding e using True by simp
    finally show ?thesis .
  qed
qed

lemma contiguous_bounds:
  "contiguous off ws \<Longrightarrow> ws \<noteq> [] \<Longrightarrow>
     tok_begin (hd ws) = off \<and> tok_end (last ws) = off + length (concat (map tok_word ws))"
proof (induction ws arbitrary: off)
  case Nil
  then show ?case by simp
next
  case (Cons t ts)
  show ?case
  proof (cases "ts = []")
    case True
    with Cons.prems show ?thesis by simp
  next
    case False
    from Cons.prems(1)[unfolded contiguous.simps]
    have c: "contiguous (tok_end t) ts" and b: "tok_begin t = off"
      and e: "tok_end t = off + length (tok_word t)" by blast+
    from Cons.IH[OF c False] have "tok_end (last ts) = tok_end t + length (concat (map tok_word ts))"
      by simp
    with b e False show ?thesis by simp
  qed
qed

lemma pos_match_at_cases:
  assumes "i \<in> set (pos_match_at r s tokens k)"
  shows "issue_type i = ''pos'' \<and>
         issue_begin i = int (tok_begin (tokens ! k)) \<and>
         issue_end i = int (tok_end (tokens ! (k + length (pr_sequence r) - 1))) \<and>
         hit_text i = concat (map tok_word (take (length (pr_sequence r)) (drop k tokens)))"
  using assms by (auto simp: pos_match_at_def Let_def split: if_splits)

lemma pos_rule_match_cases:
  assumes "i \<in> set (pos_rule_match r s tokens)"
  shows "\<exists>k n. 0 < n \<and> k + n \<le> length tokens \<and> issue_type i = ''pos'' \<and>
           issue_begin i = int (tok_begin (tokens ! k)) \<and>
           issue_end i = int (tok_end (tokens ! (k + n - 1))) \<and>
           hit_text i = concat (map tok_word (take n (drop k tokens)))"
proof -
  let ?n = "length (pr_sequence r)"
  from assms have n: "0 < ?n" by (auto simp: pos_rule_match_def split: if_splits)
  from assms obtain k where k: "k < Suc (length tokens) - ?n"
    and i: "i \<in> set (pos_match_at r s tokens k)"
    by (auto simp: pos_rule_match_def split: if_splits)
  from k n have "k + ?n \<le> length tokens" by simp
  with n pos_match_at_cases[OF i] show ?thesis by blast
qed

lemma run_pos_checks_cases:
  assumes "i \<in> set (run_pos_checks tg rules s)"
  shows "\<exists>tagger k n. tg = Some tagger \<and> 0 < n \<and>
           k + n \<le> length (tokenize_loop s 0 (tagger s)) \<and> issue_type i = ''pos'' \<and>
           issue_begin i = int (tok_begin (tokenize_loop s 0 (tagger s) ! k)) \<and>
           issue_end i = int (tok_end (tokenize_loop s 0 (tagger s) ! (k + n - 1))) \<and>
           hit_text i = concat (map tok_word (take n (drop k (tokenize_loop s 0 (tagger s)))))"
proof -
  from assms obtain tagger where tg: "tg = Some tagger" by (cases tg) (auto simp: run_pos_checks_def)
  with assms obtain r where "i \<in> set (pos_rule_match r s (tokenize_loop s 0 (tagger s)))"
    by (auto simp: run_pos_checks_def Let_def split: if_splits)
  from pos_rule_match_cases[OF this] tg show ?thesis by blast
qed

lemma run_pos_checks_type: "i \<in> set (run_pos_checks tg rules s) \<Longrightarrow> issue_type i = ''pos''"
  using run_pos_checks_cases by blast

lemma run_pos_checks_ordered:
  assumes "i \<in> set (run_pos_checks tg rules s)"
  shows "0 \<le> issue_begin i \<and> issue_begin i \<le> issue_end i"
proof -
  from run_pos_checks_cases[OF assms] obtain tagger k n where
    n: "0 < n" "k + n \<le> length (tokenize_loop s 0 (tagger s))"
    and b: "issue_begin i = int (tok_begin (tokenize_loop s 0 (tagger s) ! k))"
    and e: "issue_end i = int (tok_end (tokenize_loop s 0 (tagger s) ! (k + n - 1)))"
    by blast
  from n have "k \<le> k + n - 1" "k + n - 1 < length (tokenize_loop s 0 (tagger s))" by simp_all
  from chained_nth[OF tokenize_loop_chained this] b e show ?thesis by simp
qed

lemma run_pos_checks_within:
  assumes c: "concat (map fst (tagger s)) = s"
    and i: "i \<in> set (run_pos_checks (Some tagger) rules s)"
  shows "issue_within s i"
proof -
  let ?ts = "tokenize_loop s 0 (tagger s)"
  from run_pos_checks_cases[OF i] obtain k n where
    n: "0 < n" "k + n \<le> length ?ts"
    and b: "issue_begin i = int (tok_begin (?ts ! k))"
    and e: "issue_end i = int (tok_end (?ts ! (k + n - 1)))"
    and h: "hit_text i = concat (map tok_word (take n (drop k ?ts)))"
    by auto
  have "s = [] @ concat (map fst (tagger s)) @ []" using c by simp
  from tokenize_loop_contiguous[OF this]
  have ct: "contiguous 0 ?ts" and w: "map tok_word ?ts = map fst (tagger s)" by simp_all
  let ?A = "take k ?ts" and ?W = "take n (drop k ?ts)" and ?B = "drop (k + n) ?ts"
  let ?a = "concat (map tok_word ?A)" and ?w = "concat (map tok_word ?W)"
    and ?b = "concat (map tok_word ?B)"
  have "drop n (drop k ?ts) = ?B" by (simp add: add.commute)
  then have "drop k ?ts = ?W @ ?B" using append_take_drop_id[of n "drop k ?ts"] by simp
  then have split: "?ts = ?A @ ?W @ ?B" using append_take_drop_id[of k ?ts] by simp
  have sw: "s = ?a @ ?w @ ?b"
  proof -
    have "s = concat (map tok_word ?ts)" using c w by simp
    also have "\<dots> = concat (map tok_word (?A @ ?W @ ?B))" using split by simp
    finally show ?thesis by simp
  qed
  have lW: "length ?W = n" using n by simp
  then have ne: "?W \<noteq> []" using n(1) by auto
  have "contiguous 0 (?A @ (?W @ ?B))" using ct split by simp
  then have "contiguous (length ?a) (?W @ ?B)" by (simp add: contiguous_append)
  then have cw: "contiguous (length ?a) ?W" by (simp add: contiguous_append)
  from contiguous_bounds[OF cw ne]
  have hb: "tok_begin (hd ?W) = length ?a" and le: "tok_end (last ?W) = length ?a + length ?w"
    by simp_all
  have "hd ?W = ?ts ! k" using n by (simp add: hd_drop_conv_nth)
  moreover have "last ?W = ?ts ! (k + n - 1)"
  proof -
    have "last ?W = ?W ! (n - 1)" using ne lW by (simp add: last_conv_nth)
    also have "\<dots> = ?ts ! (k + (n - 1))" using n by simp
    finally show ?thesis using n(1) by simp
  qed
  ultimately have be: "issue_begin i = int (length ?a)" "issue_end i = int (length ?a + length ?w)"
    using b e hb le by simp_all
  have "py_slice s (int (length ?a)) (int (length ?a + length ?w)) = ?w"
    by (subst sw, simp only: py_slice_int) simp
  moreover have "length ?a + length ?w \<le> length s" by (subst (3) sw) simp
  ultimately show ?thesis using be h by (simp only: issue_within_def) simp
qed

lemma tokenize_loop_words: "map tok_word (tokenize_loop s off wts) = map fst wts"
  by (induction wts arbitrary: off) (simp_all add: Let_def)

lemma pos_match_at_matched:
  assumes "i \<in> set (pos_match_at r s tokens k)"
  shows "list_all2 cond_ok (pr_sequence r) (take (length (pr_sequence r)) (drop k tokens))"
  using assms by (auto simp: pos_match_at_def Let_def split: if_splits)

lemma run_pos_checks_matched:
  assumes "i \<in> set (run_pos_checks tg prules s)"
  shows "\<exists>tagger r k. tg = Some tagger \<and> r \<in> set prules \<and> pr_sequence r \<noteq> [] \<and>
           k + length (pr_sequence r) \<le> length (tagger s) \<and>
           list_all2 cond_ok (pr_sequence r)
             (take (length (pr_sequence r)) (drop k (tokenize_loop s 0 (tagger s)))) \<and>
           issue_begin i = int (tok_begin (tokenize_loop s 0 (tagger s) ! k)) \<and>
           issue_end i =
             int (tok_end (tokenize_loop s 0 (tagger s) ! (k + length (pr_sequence r) - 1))) \<and>
           hit_text i = concat (map fst (take (length (pr_sequence r)) (drop k (tagger s))))"
proof -
  from assms obtain tagger where tg: "tg = Some tagger"
    by (cases tg) (auto simp: run_pos_checks_def)
  let ?ts = "tokenize_loop s 0 (tagger s)"
  from assms tg obtain r where r: "r \<in> set prules" and ir: "i \<in> set (pos_rule_match r s ?ts)"
    by (auto simp: run_pos_checks_def Let_def split: if_splits)
  let ?n = "length (pr_sequence r)"
  from ir have ne: "pr_sequence r \<noteq> []" by (auto simp: pos_rule_match_def split: if_splits)
  from ir obtain k where k: "k < Suc (length ?ts) - ?n" and ik: "i \<in> set (pos_match_at r s ?ts k)"
    by (auto simp: pos_rule_match_def split: if_splits)
  from k ne have kn: "k + ?n \<le> length (tagger s)" by (simp add: tokenize_loop_length)
  note c = pos_match_at_cases[OF ik]
  have "concat (map tok_word (take ?n (drop k ?ts))) = concat (map fst (take ?n (drop k (tagger s))))"
    using tokenize_loop_words[of s 0 "tagger s"] by (metis drop_map take_map)
  with c have h: "hit_text i = concat (map fst (take ?n (drop k (tagger s))))" by simp
  from tg r ne kn pos_match_at_matched[OF ik] c h show ?thesis by blast
qed

section \<open>Claims on offsets\<close>

text \<open>
  Claim C3 (the code departs from it). The spelling-model engine tests
  \<^verbatim>\<open>begin_idx < 0 or end_idx <= begin_idx or begin_idx >= len(text)\<close> under the comment
  ``ensure indices are valid'', and never compares \<^verbatim>\<open>end_idx\<close> with the length of the
  text. For the text \<^verbatim>\<open>abc\<close> and a model that reports the pair (1, 7), the pair is
  out of range (7 is beyond the length 3) and is nevertheless surfaced as an issue
  with \<^verbatim>\<open>begin = 1\<close>, \<^verbatim>\<open>end = 7\<close> and the hit \<^verbatim>\<open>bc\<close>.
\<close>

theorem run_csc_end_past_text:
  "run_csc (Some (\<lambda>t. Some (t, [([98], [120], Some 1, Some 7)]))) [97, 98, 99] =
     [csc_issue [97, 98, 99] [120] 1 7] \<and>
   issue_begin (csc_issue [97, 98, 99] [120] 1 7) = 1 \<and>
   issue_end (csc_issue [97, 98, 99] [120] 1 7) = 7 \<and>
   hit_text (csc_issue [97, 98, 99] [120] 1 7) = [98, 99] \<and>
   int (length [97, 98, 99 :: nat]) < issue_end (csc_issue [97, 98, 99] [120] 1 7)"
  by (simp add: run_csc_def csc_issue_def py_slice_def norm_index_def)

text \<open>
  Claim C1 as stated fails. With the text \<^verbatim>\<open>ab\<close>, a spelling model that reports the
  pair (0, 5) yields an issue whose end 5 is beyond the text. A tagger that returns
  the single surface form \<^verbatim>\<open>z\<close>, which is not in the text, yields a POS issue at
  [0, 1) whose hit \<^verbatim>\<open>z\<close> is not the slice \<^verbatim>\<open>a\<close>; and a tagger that returns
  \<^verbatim>\<open>zzz\<close> yields a POS issue at [0, 3), whose end is beyond the text of length 2.
\<close>

theorem issue_offsets_counterexample:
  "\<not> list_all (issue_within [97, 98])
       (run_csc (Some (\<lambda>t. Some (t, [([97], [120], Some 0, Some 5)]))) [97, 98]) \<and>
   map issue_end
       (run_csc (Some (\<lambda>t. Some (t, [([97], [120], Some 0, Some 5)]))) [97, 98]) = [5] \<and>
   \<not> list_all (issue_within [97, 98])
       (run_pos_checks (Some (\<lambda>t. [([122], [110])]))
          [\<lparr> pr_id = [114], pr_sequence = [\<lparr> cond_word = None, cond_regex = None,
                                              cond_tag = Some [110] \<rparr>],
             pr_hint = [], pr_suggest = [], pr_confidence = 0.6 \<rparr>]
          [97, 98]) \<and>
   map (\<lambda>i. (issue_begin i, issue_end i, hit_text i))
       (run_pos_checks (Some (\<lambda>t. [([122], [110])]))
          [\<lparr> pr_id = [114], pr_sequence = [\<lparr> cond_word = None, cond_regex = None,
                                              cond_tag = Some [110] \<rparr>],
             pr_hint = [], pr_suggest = [], pr_confidence = 0.6 \<rparr>]
          [97, 98]) = [(0, 1, [122])] \<and>
   py_slice [97, 98 :: nat] 0 1 = [97] \<and>
   map (\<lambda>i. (issue_begin i, issue_end i, hit_text i))
       (run_pos_checks (Some (\<lambda>t. [([122, 122, 122], [110])]))
          [\<lparr> pr_id = [114], pr_sequence = [\<lparr> cond_word = None, cond_regex = None,
                                              cond_tag = Some [110] \<rparr>],
             pr_hint = [], pr_suggest = [], pr_confidence = 0.6 \<rparr>]
          [97, 98]) = [(0, 3, [122, 122, 122])] \<and>
   int (length [97, 98 :: nat]) < 3"
  by (simp add: run_csc_def csc_issue_def issue_within_def run_pos_checks_def
        pos_rule_match_def pos_match_at_def cond_ok_def starts_with_def py_find_def
        py_slice_def norm_index_def Let_def)

text \<open>
  Claim C1, amended. Every issue of the structural, lexicon and term engines
  satisfies \<open>0 \<le> begin \<le> end \<le> len(text)\<close> and \<open>hit_text = text[begin:end]\<close>; so
  does every issue of the pattern engine when the matches that \<^verbatim>\<open>re\<close> returns lie
  inside the text, and every issue of the POS engine when the surface forms of the
  tagger concatenate to the text. With any tagger a POS issue satisfies
  \<open>0 \<le> begin \<le> end\<close>, and it comes from a rule and a start index \<open>k\<close> such that
  the rule's conditions hold for the consecutive tokens from \<open>k\<close> on: \<^verbatim>\<open>begin\<close> is
  the reconstructed start of the first of these tokens, \<^verbatim>\<open>end\<close> the reconstructed
  end of the last, and \<^verbatim>\<open>hit_text\<close> the concatenation of their surface forms. Every
  issue of the spelling-model engine satisfies \<open>0 \<le> begin < end\<close>,
  \<open>begin < len(text)\<close> and \<open>hit_text = text[begin:end]\<close> (the slice).
\<close>

theorem issue_offsets:
  "(\<forall>i \<in> set (run_rule_checks s). issue_within s i) \<and>
   (\<forall>i \<in> set (run_lex_checks conf valid s). issue_within s i) \<and>
   ((\<forall>r \<in> set rules. \<forall>m \<in> set (rx_finditer r s). match_within s m) \<longrightarrow>
      (\<forall>i \<in> set (run_pattern_checks rules s). issue_within s i)) \<and>
   (concat (map fst (tagger s)) = s \<longrightarrow>
      (\<forall>i \<in> set (run_pos_checks (Some tagger) prules s). issue_within s i)) \<and>
   (\<forall>i \<in> set (run_pos_checks tg prules s).
      0 \<le> issue_begin i \<and> issue_begin i \<le> issue_end i \<and>
      (\<exists>tagger r k. tg = Some tagger \<and> r \<in> set prules \<and> pr_sequence r \<noteq> [] \<and>
         k + length (pr_sequence r) \<le> length (tagger s) \<and>
         list_all2 cond_ok (pr_sequence r)
           (take (length (pr_sequence r)) (drop k (tokenize_loop s 0 (tagger s)))) \<and>
         issue_begin i = int (tok_begin (tokenize_loop s 0 (tagger s) ! k)) \<and>
         issue_end i =
           int (tok_end (tokenize_loop s 0 (tagger s) ! (k + length (pr_sequence r) - 1))) \<and>
         hit_text i = concat (map fst (take (length (pr_sequence r)) (drop k (tagger s)))))) \<and>
   (terms_loaded ts \<longrightarrow>
      run_term_checks ts s = Some (term_checks ts s) \<and>
      (\<forall>i \<in> set (term_checks ts s). issue_within s i)) \<and>
   (\<forall>i \<in> set (run_csc model s). csc_issue_ok s i)"
proof -
  have 1: "\<forall>i \<in> set (run_rule_checks s). issue_within s i"
    by (simp add: run_rule_checks_ok)
  have 2: "\<forall>i \<in> set (run_lex_checks conf valid s). issue_within s i"
    by (simp add: run_lex_checks_ok)
  have 3: "(\<forall>r \<in> set rules. \<forall>m \<in> set (rx_finditer r s). match_within s m) \<longrightarrow>
      (\<forall>i \<in> set (run_pattern_checks rules s). issue_within s i)"
    using run_pattern_checks_within by blast
  have 4: "concat (map fst (tagger s)) = s \<longrightarrow>
      (\<forall>i \<in> set (run_pos_checks (Some tagger) prules s). issue_within s i)"
    using run_pos_checks_within by blast
  have 5: "\<forall>i \<in> set (run_pos_checks tg prules s).
      0 \<le> issue_begin i \<and> issue_begin i \<le> issue_end i \<and>
      (\<exists>tagger r k. tg = Some tagger \<and> r \<in> set prules \<and> pr_sequence r \<noteq> [] \<and>
         k + length (pr_sequence r) \<le> length (tagger s) \<and>
         list_all2 cond_ok (pr_sequence r)
           (take (length (pr_sequence r)) (drop k (tokenize_loop s 0 (tagger s)))) \<and>
         issue_begin i = int (tok_begin (tokenize_loop s 0 (tagger s) ! k)) \<and>
         issue_end i =
           int (tok_end (tokenize_loop s 0 (tagger s) ! (k + length (pr_sequence r) - 1))) \<and>
         hit_text i = concat (map fst (take (length (pr_sequence r)) (drop k (tagger s)))))"
  proof
    fix i assume i: "i \<in> set (run_pos_checks tg prules s)"
    from run_pos_checks_ordered[OF i] run_pos_checks_matched[OF i]
    show "0 \<le> issue_begin i \<and> issue_begin i \<le> issue_end i \<and>
      (\<exists>tagger r k. tg = Some tagger \<and> r \<in> set prules \<and> pr_sequence r \<noteq> [] \<and>
         k + length (pr_sequence r) \<le> length (tagger s) \<and>
         list_all2 cond_ok (pr_sequence r)
           (take (length (pr_sequence r)) (drop k (tokenize_loop s 0 (tagger s)))) \<and>
         issue_begin i = int (tok_begin (tokenize_loop s 0 (tagger s) ! k)) \<and>
         issue_end i =
           int (tok_end (tokenize_loop s 0 (tagger s) ! (k + length (pr_sequence r) - 1))) \<and>
         hit_text i = concat (map fst (take (length (pr_sequence r)) (drop k (tagger s)))))"
      by (intro conjI) (simp_all only:)
  qed
  have 6: "terms_loaded ts \<longrightarrow>
      run_term_checks ts s = Some (term_checks ts s) \<and>
      (\<forall>i \<in> set (term_checks ts s). issue_within s i)"
    using run_term_checks_total term_checks_within by blast
  have 7: "\<forall>i \<in> set (run_csc model s). csc_issue_ok s i"
    by (simp add: run_csc_ok)
  show ?thesis
    by (rule conjI[OF 1 conjI[OF 2 conjI[OF 3 conjI[OF 4 conjI[OF 5 conjI[OF 6 7]]]]]])
qed

theorem issue_offsets_witness:
  "terms_loaded [\<lparr> te_term = [97, 98], te_hint = [], te_suggestions = [], te_confidence = 0.8 \<rparr>] \<and>
   concat (map fst ((\<lambda>t :: ustr. [([40 :: nat], [120 :: nat]), ([97, 98], [110])]) [40, 97, 98])) =
     [40, 97, 98] \<and>
   list_all (\<lambda>r. list_all (match_within [40, 97, 98]) (rx_finditer r [40, 97, 98]))
     [\<lparr> rx_id = [114], rx_finditer = (\<lambda>t. [\<lparr> m_start = 0, m_end = 1, m_start1 = None \<rparr>]),
        rx_hint = [], rx_suggest = [], rx_confidence = 0.7 \<rparr>] \<and>
   list_all (issue_within [40, 97, 98]) (run_rule_checks [40, 97, 98]) \<and>
   list_all (issue_within [40, 97, 98])
     (run_pattern_checks
        [\<lparr> rx_id = [114], rx_finditer = (\<lambda>t. [\<lparr> m_start = 0, m_end = 1, m_start1 = None \<rparr>]),
           rx_hint = [], rx_suggest = [], rx_confidence = 0.7 \<rparr>] [40, 97, 98]) \<and>
   length (run_pattern_checks
        [\<lparr> rx_id = [114], rx_finditer = (\<lambda>t. [\<lparr> m_start = 0, m_end = 1, m_start1 = None \<rparr>]),
           rx_hint = [], rx_suggest = [], rx_confidence = 0.7 \<rparr>] [40, 97, 98]) = 1 \<and>
   list_all (issue_within [40, 97, 98])
     (run_pos_checks (Some (\<lambda>t. [([40], [120]), ([97, 98], [110])]))
        [\<lparr> pr_id = [114], pr_sequence = [\<lparr> cond_word = None, cond_regex = None,
                                            cond_tag = Some [110] \<rparr>],
           pr_hint = [], pr_suggest = [], pr_confidence = 0.6 \<rparr>] [40, 97, 98]) \<and>
   length (run_pos_checks (Some (\<lambda>t. [([40], [120]), ([97, 98], [110])]))
        [\<lparr> pr_id = [114], pr_sequence = [\<lparr> cond_word = None, cond_regex = None,
                                            cond_tag = Some [110] \<rparr>],
           pr_hint = [], pr_suggest = [], pr_confidence = 0.6 \<rparr>] [40, 97, 98]) = 1 \<and>
   list_all (issue_within [40, 97, 98])
     (term_checks [\<lparr> te_term = [97, 98], te_hint = [], te_suggestions = [], te_confidence = 0.8 \<rparr>]
        [40, 97, 98]) \<and>
   list_all (csc_issue_ok [40, 97, 98])
     (run_csc (Some (\<lambda>t. Some (t, [([97], [120], Some 1, Some 2)]))) [40, 97, 98]) \<and>
   length (run_csc (Some (\<lambda>t. Some (t, [([97], [120], Some 1, Some 2)]))) [40, 97, 98]) = 1"
proof -
  let ?s = "[40, 97, 98] :: ustr"
  let ?ts = "[\<lparr> te_term = [97, 98], te_hint = [], te_suggestions = [], te_confidence = 0.8 \<rparr>]"
  let ?tagger = "\<lambda>t :: ustr. [([40 :: nat], [120 :: nat]), ([97, 98], [110])]"
  let ?rules = "[\<lparr> rx_id = [114], rx_finditer = (\<lambda>t. [\<lparr> m_start = 0, m_end = 1, m_start1 = None \<rparr>]),
        rx_hint = [], rx_suggest = [], rx_confidence = 0.7 \<rparr>]"
  let ?prules = "[\<lparr> pr_id = [114], pr_sequence = [\<lparr> cond_word = None, cond_regex = None,
                                            cond_tag = Some [110] \<rparr>],
           pr_hint = [], pr_suggest = [], pr_confidence = 0.6 \<rparr>]"
  let ?model = "Some (\<lambda>t :: ustr. Some (t, [([97 :: nat], [120 :: nat], Some (1 :: int), Some (2 :: int))]))"
  note t = issue_offsets[where s = ?s and ts = ?ts and tagger = ?tagger and rules = ?rules
      and prules = ?prules and model = ?model]
  have h1: "terms_loaded ?ts" by (simp add: terms_loaded_def)
  have h2: "concat (map fst (?tagger ?s)) = ?s" by simp
  have h3: "\<forall>r \<in> set ?rules. \<forall>m \<in> set (rx_finditer r ?s). match_within ?s m"
    by (simp add: match_within_def)
  have c1: "list_all (issue_within ?s) (run_rule_checks ?s)"
    using t[THEN conjunct1] by (simp only: list_all_iff)
  have c3: "list_all (issue_within ?s) (run_pattern_checks ?rules ?s)"
    using t[THEN conjunct2, THEN conjunct2, THEN conjunct1, THEN mp, OF h3]
    by (simp only: list_all_iff)
  have c4: "list_all (issue_within ?s) (run_pos_checks (Some ?tagger) ?prules ?s)"
    using t[THEN conjunct2, THEN conjunct2, THEN conjunct2, THEN conjunct1, THEN mp, OF h2]
    by (simp only: list_all_iff)
  have c6: "list_all (issue_within ?s) (term_checks ?ts ?s)"
    using t[THEN conjunct2, THEN conjunct2, THEN conjunct2, THEN conjunct2, THEN conjunct2,
        THEN conjunct1, THEN mp, OF h1, THEN conjunct2]
    by (simp only: list_all_iff)
  have c7: "list_all (csc_issue_ok ?s) (run_csc ?model ?s)"
    using t[THEN conjunct2, THEN conjunct2, THEN conjunct2, THEN conjunct2, THEN conjunct2,
        THEN conjunct2]
    by (simp only: list_all_iff)
  have n3: "length (run_pattern_checks ?rules ?s) = 1"
    by (simp add: run_pattern_checks_def regex_rule_run_def)
  have n4: "length (run_pos_checks (Some ?tagger) ?prules ?s) = 1"
    by (simp add: run_pos_checks_def pos_rule_match_def pos_match_at_def cond_ok_def
          starts_with_def py_find_def Let_def)
  have n7: "length (run_csc ?model ?s) = 1"
    by (simp add: run_csc_def)
  have h3': "list_all (\<lambda>r. list_all (match_within ?s) (rx_finditer r ?s)) ?rules"
    using h3 by (simp only: list_all_iff)
  show ?thesis
    by (rule conjI[OF h1 conjI[OF h2 conjI[OF h3' conjI[OF c1 conjI[OF c3 conjI[OF n3
          conjI[OF c4 conjI[OF n4 conjI[OF c6 conjI[OF c7 n7]]]]]]]]]])
qed

section \<open>The bigram scan\<close>

text \<open>
  The words of the specification: the confusion alternatives of a character
  (\<^verbatim>\<open>CONFUSION.get(ch, [])\<close>), the substitution of position \<open>p\<close> of a window by an
  alternative, and the candidates of a window: the substitutions of one position
  \<open>p \<in> {0, 1}\<close> that are valid words and differ from the window.
\<close>

definition alternatives :: "(uchar \<rightharpoonup> ustr list) \<Rightarrow> uchar \<Rightarrow> ustr list" where
  "alternatives conf c = (case conf c of None \<Rightarrow> [] | Some alts \<Rightarrow> alts)"

definition substitute :: "ustr \<Rightarrow> nat \<Rightarrow> ustr \<Rightarrow> ustr" where
  "substitute w p alt = take p w @ alt @ drop (Suc p) w"

definition window_candidates :: "(uchar \<rightharpoonup> ustr list) \<Rightarrow> ustr set \<Rightarrow> ustr \<Rightarrow> ustr set" where
  "window_candidates conf valid w =
     {substitute w p alt | p alt.
        p < 2 \<and> alt \<in> set (alternatives conf (w ! p)) \<and>
        substitute w p alt \<in> valid \<and> substitute w p alt \<noteq> w}"

lemma window_candidates_pair:
  "window_candidates conf valid [a, b] =
     {alt @ [b] | alt. alt \<in> set (alternatives conf a) \<and> alt @ [b] \<in> valid \<and> alt @ [b] \<noteq> [a, b]} \<union>
     {a # alt | alt. alt \<in> set (alternatives conf b) \<and> a # alt \<in> valid \<and> a # alt \<noteq> [a, b]}"
  (is "?L = ?A \<union> ?B")
proof
  show "?L \<subseteq> ?A \<union> ?B"
  proof
    fix c assume "c \<in> ?L"
    then obtain p alt where p: "p < 2" and c: "c = substitute [a, b] p alt"
      and alt: "alt \<in> set (alternatives conf ([a, b] ! p))" and v: "c \<in> valid" "c \<noteq> [a, b]"
      unfolding window_candidates_def by blast
    from p consider "p = 0" | "p = 1" by linarith
    then show "c \<in> ?A \<union> ?B"
    proof cases
      case 1
      with c alt v show ?thesis by (simp add: substitute_def)
    next
      case 2
      with c alt v show ?thesis by (simp add: substitute_def)
    qed
  qed
  show "?A \<union> ?B \<subseteq> ?L"
  proof
    fix c assume "c \<in> ?A \<union> ?B"
    then consider alt where "c = alt @ [b]" "alt \<in> set (alternatives conf a)" "c \<in> valid" "c \<noteq> [a, b]"
      | alt where "c = a # alt" "alt \<in> set (alternatives conf b)" "c \<in> valid" "c \<noteq> [a, b]"
      by blast
    then show "c \<in> ?L"
    proof cases
      case 1
      then have "c = substitute [a, b] 0 alt" "alt \<in> set (alternatives conf ([a, b] ! 0))"
        by (simp_all add: substitute_def)
      with 1(3,4) show ?thesis unfolding window_candidates_def
        by (intro CollectI exI[of _ 0] exI[of _ alt]) simp
    next
      case 2
      then have "c = substitute [a, b] 1 alt" "alt \<in> set (alternatives conf ([a, b] ! 1))"
        by (simp_all add: substitute_def)
      with 2(3,4) show ?thesis unfolding window_candidates_def
        by (intro CollectI exI[of _ 1] exI[of _ alt]) simp
    qed
  qed
qed

lemma smart_sug_pair:
  "set (smart_sug conf valid [a, b]) = window_candidates conf valid [a, b]"
proof -
  have e: "List.enumerate 0 [a, b] = [(0, a), (1, b)]" by simp
  have "set (smart_sug conf valid [a, b]) =
     {alt @ [b] | alt. alt \<in> set (alternatives conf a) \<and> alt @ [b] \<in> valid \<and> alt @ [b] \<noteq> [a, b]} \<union>
     {a # alt | alt. alt \<in> set (alternatives conf b) \<and> a # alt \<in> valid \<and> a # alt \<noteq> [a, b]}"
    unfolding smart_sug_def e alternatives_def
    by (auto simp: Let_def split: if_splits)
  then show ?thesis by (simp only: window_candidates_pair)
qed

lemma bigram_window:
  assumes "k < length s - 1"
  shows "py_slice s (int k) (int k + 2) = [s ! k, s ! Suc k]"
proof -
  have e: "int k + 2 = int (k + 2)" by simp
  from assms have "Suc k < length s" by simp
  then have "take 2 (drop k s) = [s ! k, s ! Suc k]"
    by (metis Cons_nth_drop_Suc Suc_lessD numeral_2_eq_2 take0 take_Suc_Cons)
  then have t: "take (k + 2 - k) (drop k s) = [s ! k, s ! Suc k]" by simp
  have "py_slice s (int k) (int k + 2) = py_slice s (int k) (int (k + 2))" by (simp only: e)
  also have "\<dots> = take (k + 2 - k) (drop k s)" by (rule py_slice_int)
  finally show ?thesis using t by (simp only:)
qed

lemma lex_rule_ids_distinct:
  "ascii ''confusion_char'' \<noteq> ascii ''confusion_bigram_suggested''"
  by (simp add: ascii_def)

lemma bigram_issue_rule_id:
  "i \<in> set (bigram_issue conf valid s k) \<Longrightarrow> rule_id i = ascii ''confusion_bigram_suggested''"
  by (auto simp: bigram_issue_def Let_def lex_make_issue_def split: if_splits)

lemma confusion_issue_rule_id:
  "i \<in> set (confusion_issue conf s p) \<Longrightarrow> rule_id i = ascii ''confusion_char''"
  by (auto simp: confusion_issue_def Let_def lex_make_issue_def split: if_splits option.splits)

lemma run_lex_checks_bigram:
  "filter (\<lambda>i. rule_id i = ascii ''confusion_bigram_suggested'') (run_lex_checks conf valid s) =
     bigram_checks conf valid s"
proof (cases "s = []")
  case True
  then show ?thesis by (simp add: run_lex_checks_def bigram_checks_def)
next
  case False
  have 1: "filter (\<lambda>i. rule_id i = ascii ''confusion_bigram_suggested'') (confusion_checks conf s) = []"
    unfolding filter_empty_conv confusion_checks_def
    using confusion_issue_rule_id lex_rule_ids_distinct by fastforce
  have 2: "filter (\<lambda>i. rule_id i = ascii ''confusion_bigram_suggested'') (bigram_checks conf valid s) =
           bigram_checks conf valid s"
    unfolding filter_id_conv bigram_checks_def using bigram_issue_rule_id by fastforce
  from False 1 2 show ?thesis by (simp add: run_lex_checks_def)
qed

text \<open>
  Claim C6. For every window of two adjacent characters (start \<open>k\<close> with
  \<open>k < len(text) - 1\<close>) the bigram scan emits an issue if and only if the window has
  a candidate: a substitution of one position by a confusion alternative of the
  character there that is a valid word and differs from the window. When it
  fires it emits exactly one issue, spanning the window, whose suggestions are
  the candidates without duplicates in ascending order, with confidence 0.72.
  The scan visits the windows in order, and its issues are the issues of
  \<^verbatim>\<open>run_lex_checks\<close> with the rule id \<^verbatim>\<open>confusion_bigram_suggested\<close>.
\<close>

theorem bigram_scan_iff:
  assumes "k < length s - 1"
  shows "py_slice s (int k) (int k + 2) = [s ! k, s ! Suc k] \<and>
     (bigram_issue conf valid s k \<noteq> [] \<longleftrightarrow>
        window_candidates conf valid [s ! k, s ! Suc k] \<noteq> {}) \<and>
     (\<forall>i \<in> set (bigram_issue conf valid s k).
        bigram_issue conf valid s k = [i] \<and>
        rule_id i = ascii ''confusion_bigram_suggested'' \<and>
        issue_begin i = int k \<and> issue_end i = int k + 2 \<and>
        hit_text i = [s ! k, s ! Suc k] \<and>
        sorted (suggestions i) \<and> distinct (suggestions i) \<and>
        set (suggestions i) = window_candidates conf valid [s ! k, s ! Suc k] \<and>
        confidence i = 0.72) \<and>
     bigram_checks conf valid s = concat (map (bigram_issue conf valid s) [0..<length s - 1]) \<and>
     filter (\<lambda>i. rule_id i = ascii ''confusion_bigram_suggested'') (run_lex_checks conf valid s) =
       bigram_checks conf valid s"
proof -
  let ?w = "[s ! k, s ! Suc k]"
  let ?sug = "smart_sug conf valid ?w"
  let ?i = "lex_make_issue (ascii ''confusion_bigram_suggested'') (int k) (int k + 2) s ?w
              [26367, 25442, 21518, 26500, 25104, 24120, 29992, 20108, 23383, 35789]
              (sort (remdups ?sug)) 0.72"
  have w: "py_slice s (int k) (int k + 2) = ?w" by (rule bigram_window[OF assms])
  have b: "bigram_issue conf valid s k = (if ?sug \<noteq> [] then [?i] else [])"
    unfolding bigram_issue_def w by (simp add: Let_def)
  have c: "set ?sug = window_candidates conf valid ?w" by (rule smart_sug_pair)
  have 1: "bigram_issue conf valid s k \<noteq> [] \<longleftrightarrow> window_candidates conf valid ?w \<noteq> {}"
    unfolding b c[symmetric] by simp
  have 2: "\<forall>i \<in> set (bigram_issue conf valid s k).
        bigram_issue conf valid s k = [i] \<and>
        rule_id i = ascii ''confusion_bigram_suggested'' \<and>
        issue_begin i = int k \<and> issue_end i = int k + 2 \<and>
        hit_text i = ?w \<and>
        sorted (suggestions i) \<and> distinct (suggestions i) \<and>
        set (suggestions i) = window_candidates conf valid ?w \<and>
        confidence i = 0.72"
  proof
    fix i assume "i \<in> set (bigram_issue conf valid s k)"
    then have ne: "?sug \<noteq> []" and i: "i = ?i" unfolding b by (simp_all split: if_splits)
    have f: "rule_id ?i = ascii ''confusion_bigram_suggested''" "issue_begin ?i = int k"
      "issue_end ?i = int k + 2" "hit_text ?i = ?w" "suggestions ?i = sort (remdups ?sug)"
      "confidence ?i = 0.72"
      by (simp_all add: lex_make_issue_def)
    have "bigram_issue conf valid s k = [i]" unfolding b i using ne by simp
    moreover have "sorted (suggestions i)" "distinct (suggestions i)"
      "set (suggestions i) = window_candidates conf valid ?w"
      unfolding i f(5) using c by simp_all
    ultimately show "bigram_issue conf valid s k = [i] \<and>
        rule_id i = ascii ''confusion_bigram_suggested'' \<and>
        issue_begin i = int k \<and> issue_end i = int k + 2 \<and>
        hit_text i = ?w \<and>
        sorted (suggestions i) \<and> distinct (suggestions i) \<and>
        set (suggestions i) = window_candidates conf valid ?w \<and>
        confidence i = 0.72"
      using f(1-4,6) unfolding i by (simp only: simp_thms)
  qed
  have 3: "bigram_checks conf valid s = concat (map (bigram_issue conf valid s) [0..<length s - 1])"
    by (simp add: bigram_checks_def)
  show ?thesis
    by (rule conjI[OF w conjI[OF 1 conjI[OF 2 conjI[OF 3 run_lex_checks_bigram]]]])
qed

theorem bigram_scan_iff_witness:
  "(0 :: nat) < length [25311, 22909 :: nat] - 1 \<and>
   window_candidates (map_of [(25311, [[20320], [27877]]), (22909, [[21495]])])
     {[20320, 22909]} [25311, 22909] \<noteq> {} \<and>
   map suggestions
     (bigram_issue (map_of [(25311, [[20320], [27877]]), (22909, [[21495]])])
        {[20320, 22909]} [25311, 22909] 0) = [[[20320, 22909]]]"
proof -
  let ?conf = "map_of [(25311 :: nat, [[20320 :: nat], [27877]]), (22909, [[21495]])]"
  let ?valid = "{[20320 :: nat, 22909]}"
  let ?s = "[25311 :: nat, 22909]"
  have k: "(0 :: nat) < length ?s - 1" by simp
  have w: "py_slice ?s (int 0) (int 0 + 2) = ?s"
    by (simp add: py_slice_def norm_index_def)
  have ss: "smart_sug ?conf ?valid ?s = [[20320, 22909]]"
    by (simp add: smart_sug_def)
  have e: "map suggestions (bigram_issue ?conf ?valid ?s 0) = [[[20320, 22909]]]"
    unfolding bigram_issue_def w Let_def ss by (simp add: lex_make_issue_def)
  then have ne: "bigram_issue ?conf ?valid ?s 0 \<noteq> []" by auto
  from bigram_scan_iff[OF k, of ?conf ?valid, THEN conjunct2, THEN conjunct1] ne
  have "window_candidates ?conf ?valid [?s ! 0, ?s ! Suc 0] \<noteq> {}" by blast
  then have "window_candidates ?conf ?valid ?s \<noteq> {}" by simp
  with k e show ?thesis by (simp only: simp_thms)
qed

section \<open>The aggregator\<close>

text \<open>
  The issues of one request before sorting, in the order in which \<^verbatim>\<open>api_check\<close>
  appends them (when every term loop ends), and the response built from them.
  Both depend on the submitted text only through the stripped text \<open>t\<close>.
\<close>

definition collected :: "env \<Rightarrow> json \<Rightarrow> ustr \<Rightarrow> issue list" where
  "collected cfg modes t = switched_issues cfg modes t @ term_checks (terms cfg) t"

definition answer :: "env \<Rightarrow> (ustr \<times> json) list \<Rightarrow> ustr \<Rightarrow> response" where
  "answer cfg kvs t =
     (let issues = sort_key issue_begin (collected cfg (request_modes kvs) t) in
      \<lparr> resp_issues = issues, resp_summary = make_summary issues,
        resp_friendly_issues =
          (if request_friendly kvs then to_friendly cfg issues t else None) \<rparr>)"

text \<open>
  The precedence on equal offsets as the specification words it: structural,
  lexicon, pattern, pos, term, spelling-model.
\<close>

definition spec_rank :: "string \<Rightarrow> nat" where
  "spec_rank ty =
     (if ty = ''rule'' then 0 else if ty = ''lex'' then 1 else if ty = ''pattern'' then 2
      else if ty = ''pos'' then 3 else if ty = ''term'' then 4 else 5)"

definition follows_spec_precedence :: "issue list \<Rightarrow> bool" where
  "follows_spec_precedence issues =
     sorted_wrt (\<lambda>a b. issue_begin a < issue_begin b \<or>
                       (issue_begin a = issue_begin b \<and>
                        spec_rank (issue_type a) \<le> spec_rank (issue_type b))) issues"

text \<open>An example configuration and requests, for evaluation.\<close>

definition example_env :: env where
  "example_env =
     \<lparr> confusion = Map.empty, valid_words = {},
       regex_rules =
         [\<lparr> rx_id = ascii ''empty_text'',
            rx_finditer = (\<lambda>t. if t = [] then [\<lparr> m_start = 0, m_end = 0, m_start1 = None \<rparr>] else []),
            rx_hint = [], rx_suggest = [], rx_confidence = 0.7 \<rparr>],
       pseg = None, pos_rules = [],
       terms = [\<lparr> te_term = [97, 98], te_hint = [], te_suggestions = [], te_confidence = 0.8 \<rparr>],
       csc_model = Some (\<lambda>t. Some (t, [([97], [120], Some 0, Some 1)])),
       to_friendly = (\<lambda>issues t. None) \<rparr>"

definition example_body :: "ustr \<Rightarrow> (ustr \<times> json) list \<Rightarrow> (ustr \<times> json) list" where
  "example_body t modes = [(ascii ''text'', JStr t), (ascii ''modes'', JObj modes)]"

lemma api_check_answer:
  assumes "terms_loaded (terms cfg)" "request_data req = JObj kvs" "request_text kvs = JStr s"
  shows "api_check cfg req = Some (Inr (answer cfg kvs (py_strip s)))"
  using assms
  by (simp add: api_check_def run_term_checks_total answer_def collected_def Let_def)

lemma resp_issues_answer:
  "resp_issues (answer cfg kvs t) = sort_key issue_begin (collected cfg (request_modes kvs) t)"
  by (simp add: answer_def Let_def)

lemma resp_summary_answer:
  "resp_summary (answer cfg kvs t) = make_summary (resp_issues (answer cfg kvs t))"
  by (simp add: answer_def Let_def)

subsection \<open>The type of every issue\<close>

lemma switched_issues_type:
  assumes "i \<in> set (switched_issues cfg modes t)"
  shows "issue_type i \<in> {''rule'', ''lex'', ''pattern'', ''pos'', ''csc''}"
proof -
  from assms consider "i \<in> set (run_rule_checks t)"
    | "i \<in> set (run_lex_checks (confusion cfg) (valid_words cfg) t)"
    | "i \<in> set (run_pattern_checks (regex_rules cfg) t)"
    | "i \<in> set (run_pos_checks (pseg cfg) (pos_rules cfg) t)"
    | "i \<in> set (run_csc (csc_model cfg) t)"
    by (auto simp: switched_issues_def split: if_splits)
  then show ?thesis
  proof cases
    case 1 then show ?thesis using run_rule_checks_ok by simp
  next
    case 2 then show ?thesis using run_lex_checks_ok by simp
  next
    case 3 then show ?thesis using run_pattern_checks_type by simp
  next
    case 4 then show ?thesis using run_pos_checks_type by simp
  next
    case 5 then show ?thesis using run_csc_ok by simp
  qed
qed

lemma collected_type:
  assumes "i \<in> set (collected cfg modes t)"
  shows "issue_type i \<in> {''rule'', ''lex'', ''pattern'', ''pos'', ''csc'', ''term''}"
proof -
  from assms consider "i \<in> set (switched_issues cfg modes t)" | "i \<in> set (term_checks (terms cfg) t)"
    by (auto simp: collected_def)
  then show ?thesis
  proof cases
    case 1 then show ?thesis using switched_issues_type by blast
  next
    case 2 then show ?thesis using term_checks_fields by simp
  qed
qed

lemma count_types_sum:
  assumes "\<forall>i \<in> set xs. issue_type i \<in> {''rule'', ''lex'', ''pattern'', ''pos'', ''csc'', ''term''}"
  shows "count_type ''rule'' xs + count_type ''lex'' xs + count_type ''pattern'' xs +
         count_type ''pos'' xs + count_type ''csc'' xs + count_type ''term'' xs = length xs"
  using assms
proof (induction xs)
  case Nil
  show ?case by (simp add: count_type_def)
next
  case (Cons x xs)
  from Cons.prems have ih: "count_type ''rule'' xs + count_type ''lex'' xs + count_type ''pattern'' xs +
         count_type ''pos'' xs + count_type ''csc'' xs + count_type ''term'' xs = length xs"
    using Cons.IH by simp
  from Cons.prems consider "issue_type x = ''rule''" | "issue_type x = ''lex''"
    | "issue_type x = ''pattern''" | "issue_type x = ''pos''" | "issue_type x = ''csc''"
    | "issue_type x = ''term''" by auto
  then show ?case
    using ih by cases (simp_all add: count_type_def)
qed

lemma make_summary_counts:
  assumes "\<forall>i \<in> set xs. issue_type i \<in> {''rule'', ''lex'', ''pattern'', ''pos'', ''csc'', ''term''}"
  shows "summary_count (make_summary xs) = length xs \<and>
         sum_list (map snd (summary_by_type (make_summary xs))) = summary_count (make_summary xs) \<and>
         map fst (summary_by_type (make_summary xs)) =
           [''rule'', ''lex'', ''pattern'', ''pos'', ''csc'', ''term'']"
  using count_types_sum[OF assms] by (simp add: make_summary_def)

text \<open>
  Claim C8. Every request that is answered (the body is an object, or missing,
  and its text is a string, or missing; the configured terms are non-empty, as
  the loader keeps them) gets a response whose \<^verbatim>\<open>summary.count\<close> is the length of the
  issue list and whose \<^verbatim>\<open>summary.by_type\<close>, over the six types, sums to it.
\<close>

theorem summary_counts:
  assumes "terms_loaded (terms cfg)" "request_data req = JObj kvs" "request_text kvs = JStr s"
  shows "\<exists>resp. api_check cfg req = Some (Inr resp) \<and>
           summary_count (resp_summary resp) = length (resp_issues resp) \<and>
           sum_list (map snd (summary_by_type (resp_summary resp))) =
             summary_count (resp_summary resp) \<and>
           map fst (summary_by_type (resp_summary resp)) =
             [''rule'', ''lex'', ''pattern'', ''pos'', ''csc'', ''term'']"
proof -
  let ?r = "answer cfg kvs (py_strip s)"
  have "\<forall>i \<in> set (resp_issues ?r).
          issue_type i \<in> {''rule'', ''lex'', ''pattern'', ''pos'', ''csc'', ''term''}"
    using collected_type by (simp add: resp_issues_answer)
  from make_summary_counts[OF this] api_check_answer[OF assms]
  show ?thesis by (simp add: resp_summary_answer)
qed

lemma example_loaded: "terms_loaded (terms example_env)"
  by (simp add: example_env_def terms_loaded_def)

lemma example_request:
  "request_data \<lparr> req_json = JObj (example_body t modes), req_form_text = None \<rparr> =
     JObj (example_body t modes)"
  "t \<noteq> [] \<Longrightarrow> request_text (example_body t modes) = JStr t"
  "modes \<noteq> [] \<Longrightarrow> request_modes (example_body t modes) = JObj modes"
  "modes = [] \<Longrightarrow> request_modes (example_body t modes) = default_modes"
  by (simp_all add: request_data_def request_text_def request_modes_def example_body_def
        dict_get_def ascii_def)

theorem summary_counts_witness:
  "terms_loaded (terms example_env) \<and>
   request_data \<lparr> req_json = JObj (example_body [97, 98] [(ascii ''csc'', JBool True)]),
                  req_form_text = None \<rparr> =
     JObj (example_body [97, 98] [(ascii ''csc'', JBool True)]) \<and>
   request_text (example_body [97, 98] [(ascii ''csc'', JBool True)]) = JStr [97, 98] \<and>
   (\<exists>resp. api_check example_env
             \<lparr> req_json = JObj (example_body [97, 98] [(ascii ''csc'', JBool True)]),
               req_form_text = None \<rparr> = Some (Inr resp) \<and>
           summary_count (resp_summary resp) = length (resp_issues resp) \<and>
           sum_list (map snd (summary_by_type (resp_summary resp))) =
             summary_count (resp_summary resp) \<and>
           map fst (summary_by_type (resp_summary resp)) =
             [''rule'', ''lex'', ''pattern'', ''pos'', ''csc'', ''term''])"
proof -
  have t: "request_text (example_body [97, 98] [(ascii ''csc'', JBool True)]) = JStr [97, 98]"
    by (rule example_request(2)) simp
  from summary_counts[OF example_loaded example_request(1) t] example_loaded
    example_request(1)[of "[97, 98]" "[(ascii ''csc'', JBool True)]"] t
  show ?thesis by (intro conjI)
qed

subsection \<open>Order of the issues\<close>

lemma example_answer_issues:
  "resp_issues (answer example_env (example_body [97, 98] [(ascii ''csc'', JBool True)]) [97, 98]) =
     [csc_issue [97, 98] [120] 0 1,
      term_issue [97, 98] \<lparr> te_term = [97, 98], te_hint = [], te_suggestions = [],
                             te_confidence = 0.8 \<rparr> 0]"
proof -
  have m: "request_modes (example_body [97, 98] [(ascii ''csc'', JBool True)]) =
           JObj [(ascii ''csc'', JBool True)]"
    by (rule example_request(3)) simp
  have on: "mode_on (JObj [(ascii ''csc'', JBool True)]) ''csc''"
    "\<not> mode_on (JObj [(ascii ''csc'', JBool True)]) ''rule''"
    "\<not> mode_on (JObj [(ascii ''csc'', JBool True)]) ''lex''"
    "\<not> mode_on (JObj [(ascii ''csc'', JBool True)]) ''pat''"
    "\<not> mode_on (JObj [(ascii ''csc'', JBool True)]) ''pos''"
    by (simp_all add: mode_on_def dict_get_def ascii_def)
  have sw: "switched_issues example_env (JObj [(ascii ''csc'', JBool True)]) [97, 98] =
            [csc_issue [97, 98] [120] 0 1]"
    by (simp add: switched_issues_def on) (simp add: example_env_def run_csc_def)
  have f1: "py_find [97, 98] [97, 98] 0 = Some 0" by (simp add: py_find_def starts_with_def)
  have f2: "py_find [97, 98] [97, 98] (0 + length [97, 98 :: nat]) = None"
    by (simp add: py_find_def)
  have ch: "search_chain [97, 98] [97, 98] 0 [0]"
    unfolding search_chain.simps using f1 f2 by blast
  have ne: "[97, 98 :: nat] \<noteq> []" by simp
  have tm: "term_matches [97, 98] [97, 98] 0 = [0]"
    by (rule search_chain_unique[OF search_chain_term_matches[OF ne] ch])
  have tc: "term_checks (terms example_env) [97, 98] =
            [term_issue [97, 98] \<lparr> te_term = [97, 98], te_hint = [], te_suggestions = [],
                                   te_confidence = 0.8 \<rparr> 0]"
    by (simp add: term_checks_def example_env_def tm)
  show ?thesis
    unfolding resp_issues_answer m collected_def sw tc
    by (simp add: csc_issue_def term_issue_def)
qed

text \<open>
  Claim C2 as stated fails. The text \<^verbatim>\<open>ab\<close> is submitted with only the spelling
  model enabled; \<^verbatim>\<open>ab\<close> is a banned term and the model reports the pair (0, 1).
  Both issues begin at 0, and the response lists the spelling-model issue before
  the term issue, against the stated precedence (term before spelling-model).
\<close>

theorem issue_order_counterexample:
  "api_check example_env
     \<lparr> req_json = JObj (example_body [97, 98] [(ascii ''csc'', JBool True)]),
       req_form_text = None \<rparr> =
     Some (Inr (answer example_env (example_body [97, 98] [(ascii ''csc'', JBool True)]) [97, 98])) \<and>
   map issue_type
     (resp_issues (answer example_env (example_body [97, 98] [(ascii ''csc'', JBool True)]) [97, 98])) =
     [''csc'', ''term''] \<and>
   map issue_begin
     (resp_issues (answer example_env (example_body [97, 98] [(ascii ''csc'', JBool True)]) [97, 98])) =
     [0, 0] \<and>
   \<not> follows_spec_precedence
     (resp_issues (answer example_env (example_body [97, 98] [(ascii ''csc'', JBool True)]) [97, 98]))"
proof -
  have t: "request_text (example_body [97, 98] [(ascii ''csc'', JBool True)]) = JStr [97, 98]"
    by (rule example_request(2)) simp
  have s: "py_strip [97, 98] = [97, 98]" by (simp add: py_strip_def is_space_def)
  have a: "api_check example_env
     \<lparr> req_json = JObj (example_body [97, 98] [(ascii ''csc'', JBool True)]),
       req_form_text = None \<rparr> =
     Some (Inr (answer example_env (example_body [97, 98] [(ascii ''csc'', JBool True)]) [97, 98]))"
    using api_check_answer[OF example_loaded example_request(1) t] by (simp only: s)
  show ?thesis
    unfolding example_answer_issues
    by (rule conjI[OF a])
       (simp add: csc_issue_def term_issue_def follows_spec_precedence_def spec_rank_def)
qed

text \<open>
  Claim C2, amended. The issue list of every answered request is sorted by
  \<^verbatim>\<open>begin\<close> ascending, and the issues with one and the same \<^verbatim>\<open>begin\<close> stand in the
  order in which the engines are invoked and emit them: structural, lexicon,
  pattern, pos, spelling-model, term (an engine that is switched off contributes
  nothing).
\<close>

theorem issue_order:
  assumes "terms_loaded (terms cfg)" "request_data req = JObj kvs" "request_text kvs = JStr s"
  shows "\<exists>resp. api_check cfg req = Some (Inr resp) \<and>
           sorted (map issue_begin (resp_issues resp)) \<and>
           (\<forall>b. filter (\<lambda>i. issue_begin i = b) (resp_issues resp) =
                filter (\<lambda>i. issue_begin i = b)
                  ((if mode_on (request_modes kvs) ''rule''
                    then run_rule_checks (py_strip s) else []) @
                   (if mode_on (request_modes kvs) ''lex''
                    then run_lex_checks (confusion cfg) (valid_words cfg) (py_strip s) else []) @
                   (if mode_on (request_modes kvs) ''pat''
                    then run_pattern_checks (regex_rules cfg) (py_strip s) else []) @
                   (if mode_on (request_modes kvs) ''pos''
                    then run_pos_checks (pseg cfg) (pos_rules cfg) (py_strip s) else []) @
                   (if mode_on (request_modes kvs) ''csc''
                    then run_csc (csc_model cfg) (py_strip s) else []) @
                   term_checks (terms cfg) (py_strip s)))"
proof -
  let ?r = "answer cfg kvs (py_strip s)"
  have 1: "sorted (map issue_begin (resp_issues ?r))"
    by (simp add: resp_issues_answer)
  have 2: "\<forall>b. filter (\<lambda>i. issue_begin i = b) (resp_issues ?r) =
                filter (\<lambda>i. issue_begin i = b)
                  ((if mode_on (request_modes kvs) ''rule''
                    then run_rule_checks (py_strip s) else []) @
                   (if mode_on (request_modes kvs) ''lex''
                    then run_lex_checks (confusion cfg) (valid_words cfg) (py_strip s) else []) @
                   (if mode_on (request_modes kvs) ''pat''
                    then run_pattern_checks (regex_rules cfg) (py_strip s) else []) @
                   (if mode_on (request_modes kvs) ''pos''
                    then run_pos_checks (pseg cfg) (pos_rules cfg) (py_strip s) else []) @
                   (if mode_on (request_modes kvs) ''csc''
                    then run_csc (csc_model cfg) (py_strip s) else []) @
                   term_checks (terms cfg) (py_strip s))"
    unfolding resp_issues_answer collected_def switched_issues_def
    by (simp only: sort_key_stable append_assoc simp_thms)
  from api_check_answer[OF assms] 1 2 show ?thesis by blast
qed

theorem issue_order_witness:
  "terms_loaded (terms example_env) \<and>
   request_data \<lparr> req_json = JObj (example_body [97, 98] [(ascii ''csc'', JBool True)]),
                  req_form_text = None \<rparr> =
     JObj (example_body [97, 98] [(ascii ''csc'', JBool True)]) \<and>
   request_text (example_body [97, 98] [(ascii ''csc'', JBool True)]) = JStr [97, 98] \<and>
   (\<exists>resp. api_check example_env
             \<lparr> req_json = JObj (example_body [97, 98] [(ascii ''csc'', JBool True)]),
               req_form_text = None \<rparr> = Some (Inr resp) \<and>
           sorted (map issue_begin (resp_issues resp)) \<and>
           map issue_type (resp_issues resp) = [''csc'', ''term''])"
proof -
  let ?kvs = "example_body [97, 98] [(ascii ''csc'', JBool True)]"
  let ?req = "\<lparr> req_json = JObj ?kvs, req_form_text = None \<rparr>"
  have t: "request_text ?kvs = JStr [97, 98]" by (rule example_request(2)) simp
  have s: "py_strip [97, 98] = [97, 98]" by (simp add: py_strip_def is_space_def)
  from issue_order[OF example_loaded example_request(1) t] obtain resp where
    a: "api_check example_env ?req = Some (Inr resp)" and so: "sorted (map issue_begin (resp_issues resp))"
    by (elim exE conjE)
  from api_check_answer[OF example_loaded example_request(1) t] a
  have "resp = answer example_env ?kvs [97, 98]" by (simp add: s)
  then have ty: "map issue_type (resp_issues resp) = [''csc'', ''term'']"
    by (simp add: example_answer_issues csc_issue_def term_issue_def)
  have e: "\<exists>resp. api_check example_env ?req = Some (Inr resp) \<and>
           sorted (map issue_begin (resp_issues resp)) \<and>
           map issue_type (resp_issues resp) = [''csc'', ''term'']"
    using a so ty by (intro exI[of _ resp] conjI)
  have rq: "request_data ?req = JObj ?kvs" by (rule example_request(1))
  show ?thesis by (rule conjI[OF example_loaded conjI[OF rq conjI[OF t e]]])
qed

subsection \<open>Engine switches\<close>

lemma collected_type_cases:
  assumes "i \<in> set (collected cfg modes t)"
  shows "(issue_type i = ''rule'' \<and> mode_on modes ''rule'') \<or>
         (issue_type i = ''lex'' \<and> mode_on modes ''lex'') \<or>
         (issue_type i = ''pattern'' \<and> mode_on modes ''pat'') \<or>
         (issue_type i = ''pos'' \<and> mode_on modes ''pos'') \<or>
         (issue_type i = ''csc'' \<and> mode_on modes ''csc'') \<or>
         issue_type i = ''term''"
proof -
  from assms consider
      "mode_on modes ''rule''" "i \<in> set (run_rule_checks t)"
    | "mode_on modes ''lex''" "i \<in> set (run_lex_checks (confusion cfg) (valid_words cfg) t)"
    | "mode_on modes ''pat''" "i \<in> set (run_pattern_checks (regex_rules cfg) t)"
    | "mode_on modes ''pos''" "i \<in> set (run_pos_checks (pseg cfg) (pos_rules cfg) t)"
    | "mode_on modes ''csc''" "i \<in> set (run_csc (csc_model cfg) t)"
    | "i \<in> set (term_checks (terms cfg) t)"
    by (auto simp: collected_def switched_issues_def split: if_splits)
  then show ?thesis
  proof cases
    case 1 then show ?thesis using run_rule_checks_ok by simp
  next
    case 2 then show ?thesis using run_lex_checks_ok by simp
  next
    case 3 then show ?thesis using run_pattern_checks_type by simp
  next
    case 4 then show ?thesis using run_pos_checks_type by simp
  next
    case 5 then show ?thesis using run_csc_ok by simp
  next
    case 6 then show ?thesis using term_checks_fields by simp
  qed
qed

lemma switched_off:
  assumes "\<not> mode_on modes k"
    and "(k, ty) \<in> {(''rule'', ''rule''), (''lex'', ''lex''), (''pat'', ''pattern''),
                    (''pos'', ''pos''), (''csc'', ''csc'')}"
  shows "filter (\<lambda>i. issue_type i = ty) (sort_key issue_begin (collected cfg modes t)) = []"
proof -
  have "\<forall>i \<in> set (collected cfg modes t). issue_type i \<noteq> ty"
  proof
    fix i assume "i \<in> set (collected cfg modes t)"
    from collected_type_cases[OF this] assms show "issue_type i \<noteq> ty" by auto
  qed
  then show ?thesis by (simp add: filter_empty_conv)
qed

lemma omitted_key_off:
  assumes "ascii k \<notin> fst ` set m"
  shows "\<not> mode_on (JObj m) k"
proof -
  from assms have "map_of (rev m) (ascii k) = None" by (simp add: map_of_eq_None_iff)
  then show ?thesis by (simp add: mode_on_def dict_get_def)
qed

lemma default_modes_on:
  "mode_on default_modes ''rule''" "mode_on default_modes ''lex''"
  "mode_on default_modes ''pat''" "mode_on default_modes ''pos''"
  "\<not> mode_on default_modes ''csc''"
  by (simp_all add: mode_on_def default_modes_def dict_get_def ascii_def)

lemma collected_default:
  "collected cfg default_modes t =
     run_rule_checks t @ run_lex_checks (confusion cfg) (valid_words cfg) t @
     run_pattern_checks (regex_rules cfg) t @ run_pos_checks (pseg cfg) (pos_rules cfg) t @
     term_checks (terms cfg) t"
  by (simp add: collected_def switched_issues_def default_modes_on)

lemma request_modes_cases:
  "map_of (rev kvs) (ascii ''modes'') = None \<or> dict_get kvs ''modes'' = JNull \<or>
   dict_get kvs ''modes'' = JObj [] \<Longrightarrow> request_modes kvs = default_modes"
  "dict_get kvs ''modes'' = JObj m \<Longrightarrow> m \<noteq> [] \<Longrightarrow> request_modes kvs = JObj m"
  by (auto simp: request_modes_def dict_get_def)

text \<open>
  Claim C10. For every answered request: when \<^verbatim>\<open>modes\<close> is absent, null or the empty
  object, exactly the structural, lexicon, pattern and pos engines run besides the
  term engine (the spelling model does not); when \<^verbatim>\<open>modes\<close> is a non-empty object,
  the switchable engines run as that object says, every key that it omits counts
  as off, and the response holds no issue of an engine whose key is omitted.
\<close>

theorem modes_defaults:
  assumes "terms_loaded (terms cfg)" "request_data req = JObj kvs" "request_text kvs = JStr s"
  shows "\<exists>resp. api_check cfg req = Some (Inr resp) \<and>
     ((map_of (rev kvs) (ascii ''modes'') = None \<or> dict_get kvs ''modes'' = JNull \<or>
       dict_get kvs ''modes'' = JObj []) \<longrightarrow>
        resp_issues resp =
          sort_key issue_begin
            (run_rule_checks (py_strip s) @
             run_lex_checks (confusion cfg) (valid_words cfg) (py_strip s) @
             run_pattern_checks (regex_rules cfg) (py_strip s) @
             run_pos_checks (pseg cfg) (pos_rules cfg) (py_strip s) @
             term_checks (terms cfg) (py_strip s))) \<and>
     (\<forall>m. dict_get kvs ''modes'' = JObj m \<and> m \<noteq> [] \<longrightarrow>
        resp_issues resp =
          sort_key issue_begin
            (switched_issues cfg (JObj m) (py_strip s) @ term_checks (terms cfg) (py_strip s)) \<and>
        (\<forall>k. ascii k \<notin> fst ` set m \<longrightarrow> \<not> mode_on (JObj m) k) \<and>
        (ascii ''rule'' \<notin> fst ` set m \<longrightarrow>
           filter (\<lambda>i. issue_type i = ''rule'') (resp_issues resp) = []) \<and>
        (ascii ''lex'' \<notin> fst ` set m \<longrightarrow>
           filter (\<lambda>i. issue_type i = ''lex'') (resp_issues resp) = []) \<and>
        (ascii ''pat'' \<notin> fst ` set m \<longrightarrow>
           filter (\<lambda>i. issue_type i = ''pattern'') (resp_issues resp) = []) \<and>
        (ascii ''pos'' \<notin> fst ` set m \<longrightarrow>
           filter (\<lambda>i. issue_type i = ''pos'') (resp_issues resp) = []) \<and>
        (ascii ''csc'' \<notin> fst ` set m \<longrightarrow>
           filter (\<lambda>i. issue_type i = ''csc'') (resp_issues resp) = []))"
proof -
  let ?t = "py_strip s"
  let ?r = "answer cfg kvs ?t"
  have a: "api_check cfg req = Some (Inr ?r)" by (rule api_check_answer[OF assms])
  have 1: "(map_of (rev kvs) (ascii ''modes'') = None \<or> dict_get kvs ''modes'' = JNull \<or>
       dict_get kvs ''modes'' = JObj []) \<longrightarrow>
        resp_issues ?r =
          sort_key issue_begin
            (run_rule_checks ?t @ run_lex_checks (confusion cfg) (valid_words cfg) ?t @
             run_pattern_checks (regex_rules cfg) ?t @
             run_pos_checks (pseg cfg) (pos_rules cfg) ?t @ term_checks (terms cfg) ?t)"
  proof
    assume "map_of (rev kvs) (ascii ''modes'') = None \<or> dict_get kvs ''modes'' = JNull \<or>
       dict_get kvs ''modes'' = JObj []"
    then have "request_modes kvs = default_modes" by (rule request_modes_cases(1))
    then show "resp_issues ?r =
          sort_key issue_begin
            (run_rule_checks ?t @ run_lex_checks (confusion cfg) (valid_words cfg) ?t @
             run_pattern_checks (regex_rules cfg) ?t @
             run_pos_checks (pseg cfg) (pos_rules cfg) ?t @ term_checks (terms cfg) ?t)"
      by (simp only: resp_issues_answer collected_default)
  qed
  have 2: "\<forall>m. dict_get kvs ''modes'' = JObj m \<and> m \<noteq> [] \<longrightarrow>
        resp_issues ?r =
          sort_key issue_begin
            (switched_issues cfg (JObj m) ?t @ term_checks (terms cfg) ?t) \<and>
        (\<forall>k. ascii k \<notin> fst ` set m \<longrightarrow> \<not> mode_on (JObj m) k) \<and>
        (ascii ''rule'' \<notin> fst ` set m \<longrightarrow>
           filter (\<lambda>i. issue_type i = ''rule'') (resp_issues ?r) = []) \<and>
        (ascii ''lex'' \<notin> fst ` set m \<longrightarrow>
           filter (\<lambda>i. issue_type i = ''lex'') (resp_issues ?r) = []) \<and>
        (ascii ''pat'' \<notin> fst ` set m \<longrightarrow>
           filter (\<lambda>i. issue_type i = ''pattern'') (resp_issues ?r) = []) \<and>
        (ascii ''pos'' \<notin> fst ` set m \<longrightarrow>
           filter (\<lambda>i. issue_type i = ''pos'') (resp_issues ?r) = []) \<and>
        (ascii ''csc'' \<notin> fst ` set m \<longrightarrow>
           filter (\<lambda>i. issue_type i = ''csc'') (resp_issues ?r) = [])"
  proof (intro allI impI)
    fix m assume "dict_get kvs ''modes'' = JObj m \<and> m \<noteq> []"
    then have rm: "request_modes kvs = JObj m" using request_modes_cases(2) by blast
    have i: "resp_issues ?r = sort_key issue_begin (collected cfg (JObj m) ?t)"
      by (simp only: resp_issues_answer rm)
    have off: "\<forall>k. ascii k \<notin> fst ` set m \<longrightarrow> \<not> mode_on (JObj m) k"
      using omitted_key_off by blast
    have f: "\<And>k ty. (k, ty) \<in> {(''rule'', ''rule''), (''lex'', ''lex''), (''pat'', ''pattern''),
                    (''pos'', ''pos''), (''csc'', ''csc'')} \<Longrightarrow> ascii k \<notin> fst ` set m \<Longrightarrow>
           filter (\<lambda>i. issue_type i = ty) (resp_issues ?r) = []"
    proof -
      fix k ty
      assume a: "(k, ty) \<in> {(''rule'', ''rule''), (''lex'', ''lex''), (''pat'', ''pattern''),
                    (''pos'', ''pos''), (''csc'', ''csc'')}" and b: "ascii k \<notin> fst ` set m"
      show "filter (\<lambda>i. issue_type i = ty) (resp_issues ?r) = []"
        unfolding i by (rule switched_off[OF omitted_key_off[OF b] a])
    qed
    show "resp_issues ?r =
          sort_key issue_begin
            (switched_issues cfg (JObj m) ?t @ term_checks (terms cfg) ?t) \<and>
        (\<forall>k. ascii k \<notin> fst ` set m \<longrightarrow> \<not> mode_on (JObj m) k) \<and>
        (ascii ''rule'' \<notin> fst ` set m \<longrightarrow>
           filter (\<lambda>i. issue_type i = ''rule'') (resp_issues ?r) = []) \<and>
        (ascii ''lex'' \<notin> fst ` set m \<longrightarrow>
           filter (\<lambda>i. issue_type i = ''lex'') (resp_issues ?r) = []) \<and>
        (ascii ''pat'' \<notin> fst ` set m \<longrightarrow>
           filter (\<lambda>i. issue_type i = ''pattern'') (resp_issues ?r) = []) \<and>
        (ascii ''pos'' \<notin> fst ` set m \<longrightarrow>
           filter (\<lambda>i. issue_type i = ''pos'') (resp_issues ?r) = []) \<and>
        (ascii ''csc'' \<notin> fst ` set m \<longrightarrow>
           filter (\<lambda>i. issue_type i = ''csc'') (resp_issues ?r) = [])"
      using i[unfolded collected_def] off f[of "''rule''" "''rule''"] f[of "''lex''" "''lex''"]
        f[of "''pat''" "''pattern''"] f[of "''pos''" "''pos''"] f[of "''csc''" "''csc''"]
      by (intro conjI impI) simp_all
  qed
  show ?thesis by (rule exI[of _ ?r]) (rule conjI[OF a conjI[OF 1 2]])
qed

theorem modes_defaults_witness:
  "terms_loaded (terms example_env) \<and>
   request_data \<lparr> req_json = JObj [(ascii ''text'', JStr [97, 98])], req_form_text = None \<rparr> =
     JObj [(ascii ''text'', JStr [97, 98])] \<and>
   request_text [(ascii ''text'', JStr [97, 98])] = JStr [97, 98] \<and>
   map_of (rev [(ascii ''text'', JStr [97, 98])]) (ascii ''modes'') = None \<and>
   (\<exists>resp. api_check example_env
             \<lparr> req_json = JObj [(ascii ''text'', JStr [97, 98])], req_form_text = None \<rparr> =
             Some (Inr resp) \<and>
           resp_issues resp =
             sort_key issue_begin
               (run_rule_checks [97, 98] @
                run_lex_checks (confusion example_env) (valid_words example_env) [97, 98] @
                run_pattern_checks (regex_rules example_env) [97, 98] @
                run_pos_checks (pseg example_env) (pos_rules example_env) [97, 98] @
                term_checks (terms example_env) [97, 98])) \<and>
   request_data \<lparr> req_json = JObj (example_body [97, 98] [(ascii ''csc'', JBool True)]),
                  req_form_text = None \<rparr> =
     JObj (example_body [97, 98] [(ascii ''csc'', JBool True)]) \<and>
   request_text (example_body [97, 98] [(ascii ''csc'', JBool True)]) = JStr [97, 98] \<and>
   dict_get (example_body [97, 98] [(ascii ''csc'', JBool True)]) ''modes'' =
     JObj [(ascii ''csc'', JBool True)] \<and>
   ascii ''rule'' \<notin> fst ` set [(ascii ''csc'', JBool True)] \<and>
   (\<exists>resp. api_check example_env
             \<lparr> req_json = JObj (example_body [97, 98] [(ascii ''csc'', JBool True)]),
               req_form_text = None \<rparr> = Some (Inr resp) \<and>
           resp_issues resp =
             sort_key issue_begin
               (switched_issues example_env (JObj [(ascii ''csc'', JBool True)]) [97, 98] @
                term_checks (terms example_env) [97, 98]) \<and>
           \<not> mode_on (JObj [(ascii ''csc'', JBool True)]) ''rule'' \<and>
           filter (\<lambda>i. issue_type i = ''rule'') (resp_issues resp) = [] \<and>
           map issue_type (resp_issues resp) = [''csc'', ''term''])"
proof -
  let ?k0 = "[(ascii ''text'', JStr [97, 98])]"
  let ?r0 = "\<lparr> req_json = JObj ?k0, req_form_text = None \<rparr>"
  let ?m = "[(ascii ''csc'', JBool True)]"
  let ?k1 = "example_body [97, 98] ?m"
  let ?r1 = "\<lparr> req_json = JObj ?k1, req_form_text = None \<rparr>"
  have s: "py_strip [97, 98] = [97, 98]" by (simp add: py_strip_def is_space_def)
  have d0: "request_data ?r0 = JObj ?k0" by (simp add: request_data_def)
  have t0: "request_text ?k0 = JStr [97, 98]"
    by (simp add: request_text_def dict_get_def ascii_def)
  have m0: "map_of (rev ?k0) (ascii ''modes'') = None" by (simp add: ascii_def)
  have t1: "request_text ?k1 = JStr [97, 98]" by (rule example_request(2)) simp
  have m1: "dict_get ?k1 ''modes'' = JObj ?m"
    by (simp add: example_body_def dict_get_def ascii_def)
  have o1: "ascii ''rule'' \<notin> fst ` set ?m" by (simp add: ascii_def)
  from modes_defaults[OF example_loaded d0 t0] m0 obtain resp0 where
    a0: "api_check example_env ?r0 = Some (Inr resp0)"
    and i0: "resp_issues resp0 =
             sort_key issue_begin
               (run_rule_checks [97, 98] @
                run_lex_checks (confusion example_env) (valid_words example_env) [97, 98] @
                run_pattern_checks (regex_rules example_env) [97, 98] @
                run_pos_checks (pseg example_env) (pos_rules example_env) [97, 98] @
                term_checks (terms example_env) [97, 98])"
    unfolding s by (elim exE conjE) simp
  from modes_defaults[OF example_loaded example_request(1) t1] obtain resp1 where
    a1: "api_check example_env ?r1 = Some (Inr resp1)"
    and c1: "\<forall>m. dict_get ?k1 ''modes'' = JObj m \<and> m \<noteq> [] \<longrightarrow>
        resp_issues resp1 =
          sort_key issue_begin
            (switched_issues example_env (JObj m) (py_strip [97, 98]) @
             term_checks (terms example_env) (py_strip [97, 98])) \<and>
        (\<forall>k. ascii k \<notin> fst ` set m \<longrightarrow> \<not> mode_on (JObj m) k) \<and>
        (ascii ''rule'' \<notin> fst ` set m \<longrightarrow>
           filter (\<lambda>i. issue_type i = ''rule'') (resp_issues resp1) = []) \<and>
        (ascii ''lex'' \<notin> fst ` set m \<longrightarrow>
           filter (\<lambda>i. issue_type i = ''lex'') (resp_issues resp1) = []) \<and>
        (ascii ''pat'' \<notin> fst ` set m \<longrightarrow>
           filter (\<lambda>i. issue_type i = ''pattern'') (resp_issues resp1) = []) \<and>
        (ascii ''pos'' \<notin> fst ` set m \<longrightarrow>
           filter (\<lambda>i. issue_type i = ''pos'') (resp_issues resp1) = []) \<and>
        (ascii ''csc'' \<notin> fst ` set m \<longrightarrow>
           filter (\<lambda>i. issue_type i = ''csc'') (resp_issues resp1) = [])"
    by (elim exE conjE)
  have ne: "?m \<noteq> []" by simp
  note c = c1[THEN spec, of ?m, THEN mp, OF conjI[OF m1 ne], unfolded s]
  have i1: "resp_issues resp1 =
          sort_key issue_begin
            (switched_issues example_env (JObj ?m) [97, 98] @
             term_checks (terms example_env) [97, 98])"
    by (rule c[THEN conjunct1])
  have off: "\<forall>k. ascii k \<notin> fst ` set ?m \<longrightarrow> \<not> mode_on (JObj ?m) k"
    by (rule c[THEN conjunct2, THEN conjunct1])
  have fr: "ascii ''rule'' \<notin> fst ` set ?m \<longrightarrow>
           filter (\<lambda>i. issue_type i = ''rule'') (resp_issues resp1) = []"
    by (rule c[THEN conjunct2, THEN conjunct2, THEN conjunct1])
  have off1: "\<not> mode_on (JObj ?m) ''rule''" by (rule off[THEN spec, THEN mp, OF o1])
  have fr1: "filter (\<lambda>i. issue_type i = ''rule'') (resp_issues resp1) = []"
    by (rule fr[THEN mp, OF o1])
  from api_check_answer[OF example_loaded example_request(1) t1] a1
  have "resp1 = answer example_env ?k1 [97, 98]" by (simp add: s)
  then have ty: "map issue_type (resp_issues resp1) = [''csc'', ''term'']"
    by (simp add: example_answer_issues csc_issue_def term_issue_def)
  have e0: "\<exists>resp. api_check example_env ?r0 = Some (Inr resp) \<and>
           resp_issues resp =
             sort_key issue_begin
               (run_rule_checks [97, 98] @
                run_lex_checks (confusion example_env) (valid_words example_env) [97, 98] @
                run_pattern_checks (regex_rules example_env) [97, 98] @
                run_pos_checks (pseg example_env) (pos_rules example_env) [97, 98] @
                term_checks (terms example_env) [97, 98])"
    by (rule exI[of _ resp0]) (rule conjI[OF a0 i0])
  have e1: "\<exists>resp. api_check example_env ?r1 = Some (Inr resp) \<and>
           resp_issues resp =
             sort_key issue_begin
               (switched_issues example_env (JObj ?m) [97, 98] @
                term_checks (terms example_env) [97, 98]) \<and>
           \<not> mode_on (JObj ?m) ''rule'' \<and>
           filter (\<lambda>i. issue_type i = ''rule'') (resp_issues resp) = [] \<and>
           map issue_type (resp_issues resp) = [''csc'', ''term'']"
    by (rule exI[of _ resp1]) (rule conjI[OF a1 conjI[OF i1 conjI[OF off1 conjI[OF fr1 ty]]]])
  have rq1: "request_data ?r1 = JObj ?k1" by (rule example_request(1))
  show ?thesis
    by (rule conjI[OF example_loaded conjI[OF d0 conjI[OF t0 conjI[OF m0 conjI[OF e0
          conjI[OF rq1 conjI[OF t1 conjI[OF m1 conjI[OF o1 e1]]]]]]]]])
qed

subsection \<open>The term engine cannot be switched off\<close>

lemma search_chain_covers:
  "search_chain s sub start ms \<Longrightarrow> sub \<noteq> [] \<Longrightarrow> start \<le> k \<Longrightarrow> occurs_at s sub k \<Longrightarrow>
     \<exists>m \<in> set ms. m \<le> k \<and> k < m + length sub"
proof (induction ms arbitrary: start)
  case Nil
  then have "py_find s sub start = None" by simp
  from py_find_None[OF this Nil.prems(3)] Nil.prems(4) show ?case by simp
next
  case (Cons m ms)
  from Cons.prems(1) have f: "py_find s sub start = Some m"
    and c: "search_chain s sub (m + length sub) ms" by simp_all
  have mk: "m \<le> k"
  proof (rule ccontr)
    assume "\<not> m \<le> k"
    then have "k < m" by simp
    from py_find_Some(3)[OF f Cons.prems(3) this] Cons.prems(4) show False by simp
  qed
  show ?case
  proof (cases "k < m + length sub")
    case True
    with mk show ?thesis by simp
  next
    case False
    then have "m + length sub \<le> k" by simp
    from Cons.IH[OF c Cons.prems(2) this Cons.prems(4)] show ?thesis by simp
  qed
qed

lemma term_issue_collected:
  assumes "item \<in> set (terms cfg)" "m \<in> set (term_matches t (te_term item) 0)"
  shows "term_issue t item m \<in> set (sort_key issue_begin (collected cfg modes t))"
proof -
  from assms have "term_issue t item m \<in> set (term_checks (terms cfg) t)"
    by (auto simp: term_checks_def)
  then show ?thesis by (simp add: collected_def)
qed

lemma term_issues_collected:
  "filter (\<lambda>i. issue_type i = ''term'') (sort_key issue_begin (collected cfg modes t)) =
     sort_key issue_begin (term_checks (terms cfg) t)"
proof -
  have 1: "filter (\<lambda>i. issue_type i = ''term'') (switched_issues cfg modes t) = []"
  proof -
    have "\<forall>i \<in> set (switched_issues cfg modes t). issue_type i \<noteq> ''term''"
    proof
      fix i assume "i \<in> set (switched_issues cfg modes t)"
      from switched_issues_type[OF this] show "issue_type i \<noteq> ''term''" by auto
    qed
    then show ?thesis by (simp add: filter_empty_conv)
  qed
  have 2: "filter (\<lambda>i. issue_type i = ''term'') (term_checks (terms cfg) t) =
           term_checks (terms cfg) t"
    by (simp add: filter_id_conv term_checks_fields)
  show ?thesis by (simp only: filter_sort collected_def filter_append 1 2 append_Nil)
qed

text \<open>A configuration whose term list holds the one banned literal \<open>w\<close>.\<close>

definition banned_env :: "ustr \<Rightarrow> env" where
  "banned_env w =
     example_env \<lparr> terms := [\<lparr> te_term = w, te_hint = [], te_suggestions = [],
                              te_confidence = 0.8 \<rparr>] \<rparr>"

text \<open>A \<^verbatim>\<open>modes\<close> object that switches every engine off.\<close>

definition all_off :: "(ustr \<times> json) list" where
  "all_off = [(ascii ''rule'', JBool False), (ascii ''lex'', JBool False),
              (ascii ''pat'', JBool False), (ascii ''pos'', JBool False),
              (ascii ''csc'', JBool False)]"

lemma all_off_switched: "switched_issues cfg (JObj all_off) t = []"
  by (simp add: switched_issues_def mode_on_def dict_get_def all_off_def ascii_def)

lemma all_off_issues:
  "resp_issues (answer cfg (example_body t all_off) u) =
     sort_key issue_begin (term_checks (terms cfg) u)"
proof -
  have "all_off \<noteq> []" by (simp add: all_off_def)
  then have "request_modes (example_body t all_off) = JObj all_off" by (rule example_request(3))
  then show ?thesis by (simp add: resp_issues_answer collected_def all_off_switched)
qed

lemma term_matches_chain:
  "sub \<noteq> [] \<Longrightarrow> search_chain s sub 0 ms \<Longrightarrow> term_matches s sub 0 = ms"
  by (rule search_chain_unique[OF search_chain_term_matches])

lemma banned_env_checks:
  assumes "w \<noteq> []" "search_chain u w 0 ms"
  shows "term_checks (terms (banned_env w)) u =
           map (term_issue u \<lparr> te_term = w, te_hint = [], te_suggestions = [],
                                te_confidence = 0.8 \<rparr>) ms"
  by (simp add: banned_env_def term_checks_def term_matches_chain[OF assms])

lemma banned_env_loaded: "w \<noteq> [] \<Longrightarrow> terms_loaded (terms (banned_env w))"
  by (simp add: banned_env_def terms_loaded_def)

text \<open>
  Claim C7 as stated fails. Every engine flag is off in both requests. With the
  banned term \<^verbatim>\<open>aa\<close> and the text \<^verbatim>\<open>aaa\<close> the term occurs at offsets 0 and 1, and the
  response holds the one term issue for offset 0: the search resumes at the end of
  a match, and the occurrence at offset 1 gets no issue of its own. With the
  banned term \<^verbatim>\<open> a\<close> (a space, then \<^verbatim>\<open>a\<close>) and the submitted text \<^verbatim>\<open> a\<close> the term
  occurs in the input text, the engine is given the stripped text \<^verbatim>\<open>a\<close>, and the
  response holds no issue.
\<close>

theorem term_always_runs_counterexample:
  "occurs_at [97, 97, 97] [97, 97] 0 \<and> occurs_at [97, 97, 97] [97, 97] 1 \<and>
   (\<exists>resp. api_check (banned_env [97, 97])
             \<lparr> req_json = JObj (example_body [97, 97, 97] all_off), req_form_text = None \<rparr> =
             Some (Inr resp) \<and>
           map (\<lambda>i. (issue_type i, issue_begin i, issue_end i)) (resp_issues resp) =
             [(''term'', 0, 2)]) \<and>
   occurs_at [32, 97] [32, 97] 0 \<and>
   (\<exists>resp. api_check (banned_env [32, 97])
             \<lparr> req_json = JObj (example_body [32, 97] all_off), req_form_text = None \<rparr> =
             Some (Inr resp) \<and>
           resp_issues resp = [])"
proof -
  have o0: "occurs_at [97, 97, 97] [97, 97] 0" by (simp add: occurs_at_def)
  have o1: "occurs_at [97, 97, 97] [97, 97] 1" by (simp add: occurs_at_def)
  have o2: "occurs_at [32, 97] [32, 97] 0" by (simp add: occurs_at_def)
  have s1: "py_strip [97, 97, 97] = [97, 97, 97]" by (simp add: py_strip_def is_space_def)
  have s2: "py_strip [32, 97] = [97]" by (simp add: py_strip_def is_space_def)
  have ne1: "[97, 97 :: nat] \<noteq> []" and ne2: "[32, 97 :: nat] \<noteq> []" by simp_all
  have t1: "request_text (example_body [97, 97, 97] all_off) = JStr [97, 97, 97]"
    by (rule example_request(2)) simp
  have t2: "request_text (example_body [32, 97] all_off) = JStr [32, 97]"
    by (rule example_request(2)) simp
  have f1: "py_find [97, 97, 97] [97, 97] 0 = Some 0" by (simp add: py_find_def starts_with_def)
  have f2: "py_find [97, 97, 97] [97, 97] (0 + length [97, 97 :: nat]) = None"
    by (simp add: py_find_def starts_with_def)
  have ch1: "search_chain [97, 97, 97] [97, 97] 0 [0]"
    unfolding search_chain.simps using f1 f2 by blast
  have f3: "py_find [97] [32, 97] 0 = None" by (simp add: py_find_def starts_with_def)
  have ch2: "search_chain [97] [32, 97] 0 []" unfolding search_chain.simps by (rule f3)
  have a1: "api_check (banned_env [97, 97])
             \<lparr> req_json = JObj (example_body [97, 97, 97] all_off), req_form_text = None \<rparr> =
            Some (Inr (answer (banned_env [97, 97]) (example_body [97, 97, 97] all_off) [97, 97, 97]))"
    using api_check_answer[OF banned_env_loaded[OF ne1] example_request(1) t1] by (simp only: s1)
  have a2: "api_check (banned_env [32, 97])
             \<lparr> req_json = JObj (example_body [32, 97] all_off), req_form_text = None \<rparr> =
            Some (Inr (answer (banned_env [32, 97]) (example_body [32, 97] all_off) [97]))"
    using api_check_answer[OF banned_env_loaded[OF ne2] example_request(1) t2] by (simp only: s2)
  have i1: "map (\<lambda>i. (issue_type i, issue_begin i, issue_end i))
              (resp_issues (answer (banned_env [97, 97]) (example_body [97, 97, 97] all_off)
                 [97, 97, 97])) = [(''term'', 0, 2)]"
    by (simp add: all_off_issues banned_env_checks[OF ne1 ch1] term_issue_def)
  have i2: "resp_issues (answer (banned_env [32, 97]) (example_body [32, 97] all_off) [97]) = []"
    by (simp add: all_off_issues banned_env_checks[OF ne2 ch2])
  have e1: "\<exists>resp. api_check (banned_env [97, 97])
             \<lparr> req_json = JObj (example_body [97, 97, 97] all_off), req_form_text = None \<rparr> =
             Some (Inr resp) \<and>
           map (\<lambda>i. (issue_type i, issue_begin i, issue_end i)) (resp_issues resp) =
             [(''term'', 0, 2)]"
    by (rule exI, rule conjI[OF a1 i1])
  have e2: "\<exists>resp. api_check (banned_env [32, 97])
             \<lparr> req_json = JObj (example_body [32, 97] all_off), req_form_text = None \<rparr> =
             Some (Inr resp) \<and> resp_issues resp = []"
    by (rule exI, rule conjI[OF a2 i2])
  show ?thesis by (rule conjI[OF o0 conjI[OF o1 conjI[OF e1 conjI[OF o2 e2]]]])
qed

text \<open>
  Claim C7, amended. For every answered request, whatever the \<^verbatim>\<open>modes\<close> of the
  request (all engines switched off included), the term engine runs on the
  stripped text: the term issues of the response are exactly the issues of the term
  engine for the stripped text, in ascending order of \<^verbatim>\<open>begin\<close>; each match of the
  engine's left-to-right search for a banned term has its issue in the response;
  and every occurrence of a banned term in the stripped text lies under such a
  match of that term, beginning inside it: it is reported itself, or it overlaps
  an earlier match that is reported.
\<close>

theorem term_always_runs:
  assumes "terms_loaded (terms cfg)" "request_data req = JObj kvs" "request_text kvs = JStr s"
  shows "\<exists>resp. api_check cfg req = Some (Inr resp) \<and>
     filter (\<lambda>i. issue_type i = ''term'') (resp_issues resp) =
       sort_key issue_begin (term_checks (terms cfg) (py_strip s)) \<and>
     (\<forall>item \<in> set (terms cfg). \<forall>m \<in> set (term_matches (py_strip s) (te_term item) 0).
        term_issue (py_strip s) item m \<in> set (resp_issues resp)) \<and>
     (\<forall>item \<in> set (terms cfg). \<forall>k. occurs_at (py_strip s) (te_term item) k \<longrightarrow>
        (\<exists>m \<in> set (term_matches (py_strip s) (te_term item) 0).
           m \<le> k \<and> k < m + length (te_term item) \<and>
           term_issue (py_strip s) item m \<in> set (resp_issues resp)))"
proof -
  let ?t = "py_strip s"
  let ?r = "answer cfg kvs ?t"
  have a: "api_check cfg req = Some (Inr ?r)" by (rule api_check_answer[OF assms])
  have 1: "filter (\<lambda>i. issue_type i = ''term'') (resp_issues ?r) =
       sort_key issue_begin (term_checks (terms cfg) ?t)"
    by (simp only: resp_issues_answer term_issues_collected)
  have 2: "\<forall>item \<in> set (terms cfg). \<forall>m \<in> set (term_matches ?t (te_term item) 0).
        term_issue ?t item m \<in> set (resp_issues ?r)"
  proof (intro ballI)
    fix item m
    assume "item \<in> set (terms cfg)" "m \<in> set (term_matches ?t (te_term item) 0)"
    then show "term_issue ?t item m \<in> set (resp_issues ?r)"
      unfolding resp_issues_answer by (rule term_issue_collected)
  qed
  have 3: "\<forall>item \<in> set (terms cfg). \<forall>k. occurs_at ?t (te_term item) k \<longrightarrow>
        (\<exists>m \<in> set (term_matches ?t (te_term item) 0).
           m \<le> k \<and> k < m + length (te_term item) \<and>
           term_issue ?t item m \<in> set (resp_issues ?r))"
  proof (intro ballI allI impI)
    fix item k
    assume it: "item \<in> set (terms cfg)" and o: "occurs_at ?t (te_term item) k"
    from it assms(1) have ne: "te_term item \<noteq> []" by (simp add: terms_loaded_def list_all_iff)
    from search_chain_covers[OF search_chain_term_matches[OF ne, of ?t 0] ne _ o]
    obtain m where m: "m \<in> set (term_matches ?t (te_term item) 0)"
      and b: "m \<le> k" "k < m + length (te_term item)" by auto
    from 2 it m have "term_issue ?t item m \<in> set (resp_issues ?r)" by blast
    with m b show "\<exists>m \<in> set (term_matches ?t (te_term item) 0).
           m \<le> k \<and> k < m + length (te_term item) \<and>
           term_issue ?t item m \<in> set (resp_issues ?r)" by blast
  qed
  show ?thesis by (rule exI[of _ ?r]) (rule conjI[OF a conjI[OF 1 conjI[OF 2 3]]])
qed

theorem term_always_runs_witness:
  "terms_loaded (terms (banned_env [97, 97])) \<and>
   request_data \<lparr> req_json = JObj (example_body [97, 97, 97] all_off), req_form_text = None \<rparr> =
     JObj (example_body [97, 97, 97] all_off) \<and>
   request_text (example_body [97, 97, 97] all_off) = JStr [97, 97, 97] \<and>
   \<lparr> te_term = [97, 97], te_hint = [], te_suggestions = [], te_confidence = 0.8 \<rparr>
     \<in> set (terms (banned_env [97, 97])) \<and>
   term_matches [97, 97, 97] [97, 97] 0 = [0] \<and>
   occurs_at [97, 97, 97] [97, 97] 1 \<and>
   (\<exists>resp. api_check (banned_env [97, 97])
             \<lparr> req_json = JObj (example_body [97, 97, 97] all_off), req_form_text = None \<rparr> =
             Some (Inr resp) \<and>
           filter (\<lambda>i. issue_type i = ''term'') (resp_issues resp) =
             [term_issue [97, 97, 97]
                \<lparr> te_term = [97, 97], te_hint = [], te_suggestions = [], te_confidence = 0.8 \<rparr> 0] \<and>
           term_issue [97, 97, 97]
             \<lparr> te_term = [97, 97], te_hint = [], te_suggestions = [], te_confidence = 0.8 \<rparr> 0
             \<in> set (resp_issues resp) \<and>
           (\<exists>m \<in> set (term_matches [97, 97, 97] [97, 97] 0).
              m \<le> 1 \<and> 1 < m + length [97, 97 :: nat] \<and>
              term_issue [97, 97, 97]
                \<lparr> te_term = [97, 97], te_hint = [], te_suggestions = [], te_confidence = 0.8 \<rparr> m
                \<in> set (resp_issues resp)))"
proof -
  let ?item = "\<lparr> te_term = [97, 97], te_hint = [], te_suggestions = [], te_confidence = 0.8 \<rparr>"
  let ?kvs = "example_body [97, 97, 97] all_off"
  let ?req = "\<lparr> req_json = JObj ?kvs, req_form_text = None \<rparr>"
  have ne: "[97, 97 :: nat] \<noteq> []" by simp
  have l: "terms_loaded (terms (banned_env [97, 97]))" by (rule banned_env_loaded[OF ne])
  have rq: "request_data ?req = JObj ?kvs" by (rule example_request(1))
  have t: "request_text ?kvs = JStr [97, 97, 97]" by (rule example_request(2)) simp
  have s: "py_strip [97, 97, 97] = [97, 97, 97]" by (simp add: py_strip_def is_space_def)
  have sel: "te_term ?item = [97, 97]" by simp
  have mem: "?item \<in> set (terms (banned_env [97, 97]))" by (simp add: banned_env_def)
  have f1: "py_find [97, 97, 97] [97, 97] 0 = Some 0" by (simp add: py_find_def starts_with_def)
  have f2: "py_find [97, 97, 97] [97, 97] (0 + length [97, 97 :: nat]) = None"
    by (simp add: py_find_def starts_with_def)
  have ch: "search_chain [97, 97, 97] [97, 97] 0 [0]"
    unfolding search_chain.simps using f1 f2 by blast
  have tm: "term_matches [97, 97, 97] [97, 97] 0 = [0]" by (rule term_matches_chain[OF ne ch])
  have m0: "0 \<in> set (term_matches [97, 97, 97] [97, 97] 0)" by (simp add: tm)
  have o: "occurs_at [97, 97, 97] [97, 97] 1" by (simp add: occurs_at_def)
  have tc: "sort_key issue_begin (term_checks (terms (banned_env [97, 97])) [97, 97, 97]) =
            [term_issue [97, 97, 97] ?item 0]"
    by (simp add: banned_env_checks[OF ne ch])
  from term_always_runs[OF l rq t] obtain resp where
    a: "api_check (banned_env [97, 97]) ?req = Some (Inr resp)"
    and c1: "filter (\<lambda>i. issue_type i = ''term'') (resp_issues resp) =
       sort_key issue_begin (term_checks (terms (banned_env [97, 97])) (py_strip [97, 97, 97]))"
    and c2: "\<forall>item \<in> set (terms (banned_env [97, 97])).
        \<forall>m \<in> set (term_matches (py_strip [97, 97, 97]) (te_term item) 0).
        term_issue (py_strip [97, 97, 97]) item m \<in> set (resp_issues resp)"
    and c3: "\<forall>item \<in> set (terms (banned_env [97, 97])).
        \<forall>k. occurs_at (py_strip [97, 97, 97]) (te_term item) k \<longrightarrow>
        (\<exists>m \<in> set (term_matches (py_strip [97, 97, 97]) (te_term item) 0).
           m \<le> k \<and> k < m + length (te_term item) \<and>
           term_issue (py_strip [97, 97, 97]) item m \<in> set (resp_issues resp))"
    by (elim exE conjE)
  have d1: "filter (\<lambda>i. issue_type i = ''term'') (resp_issues resp) =
            [term_issue [97, 97, 97] ?item 0]"
    using c1 unfolding s tc .
  note c2' = c2[THEN bspec, OF mem, unfolded s sel]
  have d2: "term_issue [97, 97, 97] ?item 0 \<in> set (resp_issues resp)"
    by (rule c2'[THEN bspec, OF m0])
  note c3' = c3[THEN bspec, OF mem, unfolded s sel]
  have d3: "\<exists>m \<in> set (term_matches [97, 97, 97] [97, 97] 0).
              m \<le> 1 \<and> 1 < m + length [97, 97 :: nat] \<and>
              term_issue [97, 97, 97] ?item m \<in> set (resp_issues resp)"
    by (rule c3'[THEN spec, THEN mp, OF o])
  have e: "\<exists>resp. api_check (banned_env [97, 97]) ?req = Some (Inr resp) \<and>
           filter (\<lambda>i. issue_type i = ''term'') (resp_issues resp) =
             [term_issue [97, 97, 97] ?item 0] \<and>
           term_issue [97, 97, 97] ?item 0 \<in> set (resp_issues resp) \<and>
           (\<exists>m \<in> set (term_matches [97, 97, 97] [97, 97] 0).
              m \<le> 1 \<and> 1 < m + length [97, 97 :: nat] \<and>
              term_issue [97, 97, 97] ?item m \<in> set (resp_issues resp))"
    by (rule exI[of _ resp]) (rule conjI[OF a conjI[OF d1 conjI[OF d2 d3]]])
  show ?thesis
    by (rule conjI[OF l conjI[OF rq conjI[OF t conjI[OF mem conjI[OF tm conjI[OF o e]]]]]])
qed

subsection \<open>The stripped text\<close>

text \<open>
  The context fields of an issue are the slices of \<open>t\<close> of up to eight characters
  before \<^verbatim>\<open>begin\<close> and after \<^verbatim>\<open>end\<close>.
\<close>

definition context_of :: "ustr \<Rightarrow> issue \<Rightarrow> bool" where
  "context_of t i =
     (context_left i = py_slice t (max 0 (issue_begin i - 8)) (issue_begin i) \<and>
      context_right i = py_slice t (issue_end i) (issue_end i + 8))"

lemma rules_context: "context_of s (rules_make_issue rid b e s hit ev sugg conf)"
  by (simp add: context_of_def rules_make_issue_def)

lemma lex_context: "context_of s (lex_make_issue rid b e s hit ev sugg conf)"
  by (simp add: context_of_def lex_make_issue_def)

lemma span_checks_context:
  "i \<in> set (map (span_issue rid ev sugg conf s) ms) \<Longrightarrow> context_of s i"
  by (auto simp: span_issue_def rules_context)

lemma particle_checks_context:
  "i \<in> set (particle_checks rid x ev sugg conf s) \<Longrightarrow> context_of s i"
  by (auto simp: particle_checks_def particle_issue_def rules_context split: option.splits)

lemma bracket_checks_context:
  assumes "i \<in> set (bracket_checks s)"
  shows "context_of s i"
proof -
  from bracket_checks_cases[OF assms] obtain j where
    "i = unpaired_issue s j (s ! j) \<or> i = unclosed_issue s (s ! j, j)" by blast
  then show ?thesis by (auto simp: unpaired_issue_def unclosed_issue_def rules_context)
qed

lemma run_rule_checks_context:
  assumes "i \<in> set (run_rule_checks s)"
  shows "context_of s i"
proof -
  from assms have ne: "s \<noteq> []" by (auto simp: run_rule_checks_def)
  from assms ne consider
      "i \<in> set (multi_space_checks s)" | "i \<in> set (space_before_cn_punct_checks s)"
    | "i \<in> set (repeat_char_checks s)" | "i \<in> set (bracket_checks s)"
    | "i \<in> set (de_maybe_di_checks s)" | "i \<in> set (di_maybe_de_checks s)"
    | "i \<in> set (dei_maybe_de_checks s)"
    by (auto simp: run_rule_checks_def)
  then show ?thesis
  proof cases
    case 1
    then show ?thesis unfolding multi_space_checks_def by (rule span_checks_context)
  next
    case 2
    then show ?thesis unfolding space_before_cn_punct_checks_def by (rule span_checks_context)
  next
    case 3
    then show ?thesis unfolding repeat_char_checks_def by (rule span_checks_context)
  next
    case 4
    then show ?thesis by (rule bracket_checks_context)
  next
    case 5
    then show ?thesis unfolding de_maybe_di_checks_def by (rule particle_checks_context)
  next
    case 6
    then show ?thesis unfolding di_maybe_de_checks_def by (rule particle_checks_context)
  next
    case 7
    then show ?thesis unfolding dei_maybe_de_checks_def by (rule particle_checks_context)
  qed
qed

lemma confusion_checks_context:
  "i \<in> set (confusion_checks conf s) \<Longrightarrow> context_of s i"
  by (auto simp: confusion_checks_def confusion_issue_def Let_def lex_context
           split: option.splits if_splits)

lemma bigram_checks_context:
  "i \<in> set (bigram_checks conf valid s) \<Longrightarrow> context_of s i"
  by (auto simp: bigram_checks_def bigram_issue_def Let_def lex_context split: if_splits)

lemma run_lex_checks_context:
  "i \<in> set (run_lex_checks conf valid s) \<Longrightarrow> context_of s i"
  using confusion_checks_context bigram_checks_context
  by (auto simp: run_lex_checks_def split: if_splits)

lemma run_pattern_checks_context:
  "i \<in> set (run_pattern_checks rules s) \<Longrightarrow> context_of s i"
  by (auto simp: run_pattern_checks_def regex_rule_run_def context_of_def)

lemma pos_match_at_context:
  "i \<in> set (pos_match_at r s tokens k) \<Longrightarrow> context_of s i"
  by (auto simp: pos_match_at_def Let_def context_of_def split: if_splits)

lemma run_pos_checks_context:
  "i \<in> set (run_pos_checks tg rules s) \<Longrightarrow> context_of s i"
  using pos_match_at_context
  by (auto simp: run_pos_checks_def pos_rule_match_def Let_def split: option.splits if_splits)

lemma csc_loop_context:
  "i \<in> set (csc_loop s details) \<Longrightarrow> context_of s i"
proof (induction s details rule: csc_loop.induct)
  case (2 s old new b e rest)
  then show ?case
    by (auto simp: context_of_def csc_issue_def split: if_splits)
qed simp_all

lemma run_csc_context:
  assumes "i \<in> set (run_csc model s)"
  shows "context_of s i"
proof -
  from assms obtain details where "i \<in> set (csc_loop s details)"
    by (auto simp: run_csc_def split: option.splits if_splits)
  then show ?thesis by (rule csc_loop_context)
qed

lemma term_checks_context:
  "i \<in> set (term_checks ts s) \<Longrightarrow> context_of s i"
  by (auto simp: term_checks_def term_issue_def Let_def context_of_def)

lemma collected_cases:
  assumes "i \<in> set (collected cfg modes t)"
  shows "i \<in> set (run_rule_checks t) \<or>
         i \<in> set (run_lex_checks (confusion cfg) (valid_words cfg) t) \<or>
         i \<in> set (run_pattern_checks (regex_rules cfg) t) \<or>
         i \<in> set (run_pos_checks (pseg cfg) (pos_rules cfg) t) \<or>
         i \<in> set (run_csc (csc_model cfg) t) \<or>
         i \<in> set (term_checks (terms cfg) t)"
  using assms by (auto simp: collected_def switched_issues_def split: if_splits)

lemma collected_context:
  assumes "i \<in> set (collected cfg modes t)"
  shows "context_of t i"
  using collected_cases[OF assms] run_rule_checks_context run_lex_checks_context
    run_pattern_checks_context run_pos_checks_context run_csc_context term_checks_context
  by blast

lemma collected_within:
  assumes "terms_loaded (terms cfg)" "i \<in> set (collected cfg modes t)"
    and "issue_type i \<in> {''rule'', ''lex'', ''term''}"
  shows "issue_within t i"
proof -
  from collected_cases[OF assms(2)] consider
      "i \<in> set (run_rule_checks t)"
    | "i \<in> set (run_lex_checks (confusion cfg) (valid_words cfg) t)"
    | "i \<in> set (run_pattern_checks (regex_rules cfg) t)"
    | "i \<in> set (run_pos_checks (pseg cfg) (pos_rules cfg) t)"
    | "i \<in> set (run_csc (csc_model cfg) t)"
    | "i \<in> set (term_checks (terms cfg) t)"
    by blast
  then show ?thesis
  proof cases
    case 1 then show ?thesis using run_rule_checks_ok by simp
  next
    case 2 then show ?thesis using run_lex_checks_ok by simp
  next
    case 3
    from run_pattern_checks_type[OF this] assms(3) show ?thesis by simp
  next
    case 4
    from run_pos_checks_type[OF this] assms(3) show ?thesis by simp
  next
    case 5
    from run_csc_ok[OF this] assms(3) show ?thesis by simp
  next
    case 6 then show ?thesis by (rule term_checks_within[OF assms(1)])
  qed
qed

lemma py_strip_spaces: "list_all is_space s \<Longrightarrow> py_strip s = []"
proof -
  assume "list_all is_space s"
  then have d: "dropWhile is_space s = []" by (induction s) simp_all
  show ?thesis by (simp only: py_strip_def d rev.simps dropWhile.simps)
qed

lemma collected_Nil_text:
  assumes "terms_loaded (terms cfg)"
  shows "collected cfg modes [] =
           (if mode_on modes ''pat'' then run_pattern_checks (regex_rules cfg) [] else [])"
proof -
  have "run_pos_checks (pseg cfg) (pos_rules cfg) [] = []"
    by (simp add: run_pos_checks_def split: option.splits)
  moreover have "run_csc (csc_model cfg) [] = []"
    by (simp add: run_csc_def split: option.splits)
  ultimately show ?thesis
    by (simp add: collected_def switched_issues_def run_rule_checks_def run_lex_checks_def
          term_checks_Nil_text[OF assms])
qed

lemma run_pattern_checks_no_match:
  "\<forall>r \<in> set rules. rx_finditer r t = [] \<Longrightarrow> run_pattern_checks rules t = []"
  by (simp add: run_pattern_checks_def regex_rule_run_def)

text \<open>
  Claim C9 as stated fails in its last part. The submitted text is two spaces and
  the request names no \<^verbatim>\<open>modes\<close>, so the defaults apply. The configuration holds one
  regex rule, which matches the empty text and no other. The
  stripped text is empty, the pattern engine has no test for an empty text, and the
  response holds one pattern issue, from 0 to 0.
\<close>

theorem stripped_text_counterexample:
  "list_all is_space [32, 32] \<and>
   (\<exists>resp. api_check example_env
             \<lparr> req_json = JObj [(ascii ''text'', JStr [32, 32])], req_form_text = None \<rparr> =
             Some (Inr resp) \<and>
           map (\<lambda>i. (issue_type i, rule_id i, issue_begin i, issue_end i)) (resp_issues resp) =
             [(''pattern'', ascii ''empty_text'', 0, 0)])"
proof -
  let ?kvs = "[(ascii ''text'', JStr [32, 32])]"
  let ?req = "\<lparr> req_json = JObj ?kvs, req_form_text = None \<rparr>"
  have ls: "list_all is_space [32, 32]" by (simp add: is_space_def)
  have d: "request_data ?req = JObj ?kvs" by (simp add: request_data_def)
  have t: "request_text ?kvs = JStr [32, 32]"
    by (simp add: request_text_def dict_get_def ascii_def)
  have "map_of (rev ?kvs) (ascii ''modes'') = None" by (simp add: ascii_def)
  then have m: "request_modes ?kvs = default_modes" by (simp add: request_modes_cases(1))
  have a: "api_check example_env ?req = Some (Inr (answer example_env ?kvs []))"
    using api_check_answer[OF example_loaded d t] by (simp only: py_strip_spaces[OF ls])
  have c: "collected example_env default_modes [] =
             run_pattern_checks (regex_rules example_env) []"
    by (simp only: collected_Nil_text[OF example_loaded] default_modes_on if_True)
  have i: "map (\<lambda>i. (issue_type i, rule_id i, issue_begin i, issue_end i))
             (resp_issues (answer example_env ?kvs [])) =
           [(''pattern'', ascii ''empty_text'', 0, 0)]"
    unfolding resp_issues_answer m c
    by (simp add: run_pattern_checks_def regex_rule_run_def example_env_def)
  have "\<exists>resp. api_check example_env ?req = Some (Inr resp) \<and>
           map (\<lambda>i. (issue_type i, rule_id i, issue_begin i, issue_end i)) (resp_issues resp) =
             [(''pattern'', ascii ''empty_text'', 0, 0)]"
    by (rule exI, rule conjI[OF a i])
  with ls show ?thesis by (rule conjI)
qed

text \<open>
  Claim C9, amended. For every answered request the response is computed from the
  stripped text alone: the engines are given the stripped text, every issue of the
  response has its context fields cut from the stripped text around its \<^verbatim>\<open>begin\<close>
  and \<^verbatim>\<open>end\<close>, and every issue of the structural, lexicon and term engines lies
  within the stripped text with \<^verbatim>\<open>hit_text\<close> the slice of the stripped text from
  \<^verbatim>\<open>begin\<close> to \<^verbatim>\<open>end\<close>. A submission of whitespace only leaves the empty text; the
  response then holds exactly the issues of the pattern engine on the empty text
  when that engine is on, and no issue at all when it is off or when no configured
  regex rule matches the empty text.
\<close>

theorem stripped_text:
  assumes "terms_loaded (terms cfg)" "request_data req = JObj kvs" "request_text kvs = JStr s"
  shows "\<exists>resp. api_check cfg req = Some (Inr resp) \<and>
     resp = answer cfg kvs (py_strip s) \<and>
     resp_issues resp =
       sort_key issue_begin
         (switched_issues cfg (request_modes kvs) (py_strip s) @
          term_checks (terms cfg) (py_strip s)) \<and>
     (\<forall>i \<in> set (resp_issues resp).
        context_of (py_strip s) i \<and>
        (issue_type i \<in> {''rule'', ''lex'', ''term''} \<longrightarrow> issue_within (py_strip s) i)) \<and>
     (list_all is_space s \<longrightarrow>
        py_strip s = [] \<and>
        resp_issues resp =
          (if mode_on (request_modes kvs) ''pat''
           then sort_key issue_begin (run_pattern_checks (regex_rules cfg) []) else []) \<and>
        (\<not> mode_on (request_modes kvs) ''pat'' \<or>
         (\<forall>r \<in> set (regex_rules cfg). rx_finditer r [] = []) \<longrightarrow>
           resp_issues resp = []))"
proof -
  let ?t = "py_strip s"
  let ?r = "answer cfg kvs ?t"
  have a: "api_check cfg req = Some (Inr ?r)" by (rule api_check_answer[OF assms])
  have 1: "resp_issues ?r =
       sort_key issue_begin
         (switched_issues cfg (request_modes kvs) ?t @ term_checks (terms cfg) ?t)"
    by (simp only: resp_issues_answer collected_def)
  have 2: "\<forall>i \<in> set (resp_issues ?r).
        context_of ?t i \<and>
        (issue_type i \<in> {''rule'', ''lex'', ''term''} \<longrightarrow> issue_within ?t i)"
  proof (intro ballI conjI impI)
    fix i assume "i \<in> set (resp_issues ?r)"
    then have c: "i \<in> set (collected cfg (request_modes kvs) ?t)"
      by (simp add: resp_issues_answer)
    show "context_of ?t i" by (rule collected_context[OF c])
    assume "issue_type i \<in> {''rule'', ''lex'', ''term''}"
    then show "issue_within ?t i" by (rule collected_within[OF assms(1) c])
  qed
  have 3: "list_all is_space s \<longrightarrow>
        py_strip s = [] \<and>
        resp_issues ?r =
          (if mode_on (request_modes kvs) ''pat''
           then sort_key issue_begin (run_pattern_checks (regex_rules cfg) []) else []) \<and>
        (\<not> mode_on (request_modes kvs) ''pat'' \<or>
         (\<forall>r \<in> set (regex_rules cfg). rx_finditer r [] = []) \<longrightarrow>
           resp_issues ?r = [])"
  proof
    assume "list_all is_space s"
    then have e: "py_strip s = []" by (rule py_strip_spaces)
    have i: "resp_issues ?r =
          (if mode_on (request_modes kvs) ''pat''
           then sort_key issue_begin (run_pattern_checks (regex_rules cfg) []) else [])"
      by (simp add: resp_issues_answer e collected_Nil_text[OF assms(1)])
    have z: "\<not> mode_on (request_modes kvs) ''pat'' \<or>
         (\<forall>r \<in> set (regex_rules cfg). rx_finditer r [] = []) \<longrightarrow> resp_issues ?r = []"
    proof
      assume "\<not> mode_on (request_modes kvs) ''pat'' \<or>
         (\<forall>r \<in> set (regex_rules cfg). rx_finditer r [] = [])"
      then show "resp_issues ?r = []"
      proof
        assume "\<not> mode_on (request_modes kvs) ''pat''"
        then show ?thesis by (simp add: i)
      next
        assume "\<forall>r \<in> set (regex_rules cfg). rx_finditer r [] = []"
        then have "run_pattern_checks (regex_rules cfg) [] = []"
          by (rule run_pattern_checks_no_match)
        then show ?thesis by (simp add: i)
      qed
    qed
    show "py_strip s = [] \<and>
        resp_issues ?r =
          (if mode_on (request_modes kvs) ''pat''
           then sort_key issue_begin (run_pattern_checks (regex_rules cfg) []) else []) \<and>
        (\<not> mode_on (request_modes kvs) ''pat'' \<or>
         (\<forall>r \<in> set (regex_rules cfg). rx_finditer r [] = []) \<longrightarrow>
           resp_issues ?r = [])"
      by (rule conjI[OF e conjI[OF i z]])
  qed
  show ?thesis by (rule exI[of _ ?r]) (rule conjI[OF a conjI[OF refl conjI[OF 1 conjI[OF 2 3]]]])
qed

theorem stripped_text_witness:
  "terms_loaded (terms (banned_env [97, 98])) \<and>
   request_data \<lparr> req_json = JObj (example_body [32, 97, 98] all_off), req_form_text = None \<rparr> =
     JObj (example_body [32, 97, 98] all_off) \<and>
   request_text (example_body [32, 97, 98] all_off) = JStr [32, 97, 98] \<and>
   py_strip [32, 97, 98] = [97, 98] \<and>
   (\<exists>resp. api_check (banned_env [97, 98])
             \<lparr> req_json = JObj (example_body [32, 97, 98] all_off), req_form_text = None \<rparr> =
             Some (Inr resp) \<and>
           map (\<lambda>i. (issue_type i, issue_begin i, issue_end i, hit_text i)) (resp_issues resp) =
             [(''term'', 0, 2, [97, 98])] \<and>
           list_all (context_of [97, 98]) (resp_issues resp) \<and>
           list_all (issue_within [97, 98]) (resp_issues resp)) \<and>
   request_data \<lparr> req_json = JObj (example_body [32, 32] all_off), req_form_text = None \<rparr> =
     JObj (example_body [32, 32] all_off) \<and>
   request_text (example_body [32, 32] all_off) = JStr [32, 32] \<and>
   list_all is_space [32, 32] \<and>
   \<not> mode_on (request_modes (example_body [32, 32] all_off)) ''pat'' \<and>
   (\<exists>resp. api_check (banned_env [97, 98])
             \<lparr> req_json = JObj (example_body [32, 32] all_off), req_form_text = None \<rparr> =
             Some (Inr resp) \<and>
           resp_issues resp = [])"
proof -
  let ?item = "\<lparr> te_term = [97, 98], te_hint = [], te_suggestions = [], te_confidence = 0.8 \<rparr>"
  let ?k1 = "example_body [32, 97, 98] all_off"
  let ?r1 = "\<lparr> req_json = JObj ?k1, req_form_text = None \<rparr>"
  let ?k2 = "example_body [32, 32] all_off"
  let ?r2 = "\<lparr> req_json = JObj ?k2, req_form_text = None \<rparr>"
  have ne: "[97, 98 :: nat] \<noteq> []" by simp
  have l: "terms_loaded (terms (banned_env [97, 98]))" by (rule banned_env_loaded[OF ne])
  have d1: "request_data ?r1 = JObj ?k1" by (rule example_request(1))
  have t1: "request_text ?k1 = JStr [32, 97, 98]" by (rule example_request(2)) simp
  have s1: "py_strip [32, 97, 98] = [97, 98]" by (simp add: py_strip_def is_space_def)
  have d2: "request_data ?r2 = JObj ?k2" by (rule example_request(1))
  have t2: "request_text ?k2 = JStr [32, 32]" by (rule example_request(2)) simp
  have ls: "list_all is_space [32, 32]" by (simp add: is_space_def)
  have "all_off \<noteq> []" by (simp add: all_off_def)
  then have "request_modes ?k2 = JObj all_off" by (rule example_request(3))
  then have off: "\<not> mode_on (request_modes ?k2) ''pat''"
    by (simp add: mode_on_def dict_get_def all_off_def ascii_def)
  have f1: "py_find [97, 98] [97, 98] 0 = Some 0" by (simp add: py_find_def starts_with_def)
  have f2: "py_find [97, 98] [97, 98] (0 + length [97, 98 :: nat]) = None"
    by (simp add: py_find_def)
  have ch: "search_chain [97, 98] [97, 98] 0 [0]"
    unfolding search_chain.simps using f1 f2 by blast
  from stripped_text[OF l d1 t1] obtain resp1 where
    a1: "api_check (banned_env [97, 98]) ?r1 = Some (Inr resp1)"
    and e1: "resp1 = answer (banned_env [97, 98]) ?k1 (py_strip [32, 97, 98])"
    and b1: "\<forall>i \<in> set (resp_issues resp1).
        context_of (py_strip [32, 97, 98]) i \<and>
        (issue_type i \<in> {''rule'', ''lex'', ''term''} \<longrightarrow>
           issue_within (py_strip [32, 97, 98]) i)"
    by (elim exE conjE)
  have i1: "resp_issues resp1 = [term_issue [97, 98] ?item 0]"
    unfolding e1 s1 by (simp add: all_off_issues banned_env_checks[OF ne ch])
  have m1: "map (\<lambda>i. (issue_type i, issue_begin i, issue_end i, hit_text i)) (resp_issues resp1) =
             [(''term'', 0, 2, [97, 98])]"
    unfolding i1 by (simp add: term_issue_def)
  have mem: "term_issue [97, 98] ?item 0 \<in> set (resp_issues resp1)" by (simp add: i1)
  note b = b1[THEN bspec, OF mem, unfolded s1]
  have ty: "issue_type (term_issue [97, 98] ?item 0) \<in> {''rule'', ''lex'', ''term''}"
    by (simp add: term_issue_fields)
  have c1: "list_all (context_of [97, 98]) (resp_issues resp1)"
    unfolding i1 using b[THEN conjunct1] by simp
  have w1: "list_all (issue_within [97, 98]) (resp_issues resp1)"
    unfolding i1 using b[THEN conjunct2, THEN mp, OF ty] by simp
  have x1: "\<exists>resp. api_check (banned_env [97, 98]) ?r1 = Some (Inr resp) \<and>
           map (\<lambda>i. (issue_type i, issue_begin i, issue_end i, hit_text i)) (resp_issues resp) =
             [(''term'', 0, 2, [97, 98])] \<and>
           list_all (context_of [97, 98]) (resp_issues resp) \<and>
           list_all (issue_within [97, 98]) (resp_issues resp)"
    by (rule exI[of _ resp1]) (rule conjI[OF a1 conjI[OF m1 conjI[OF c1 w1]]])
  from stripped_text[OF l d2 t2] obtain resp2 where
    a2: "api_check (banned_env [97, 98]) ?r2 = Some (Inr resp2)"
    and w2: "list_all is_space [32, 32] \<longrightarrow>
        py_strip [32, 32] = [] \<and>
        resp_issues resp2 =
          (if mode_on (request_modes ?k2) ''pat''
           then sort_key issue_begin (run_pattern_checks (regex_rules (banned_env [97, 98])) [])
           else []) \<and>
        (\<not> mode_on (request_modes ?k2) ''pat'' \<or>
         (\<forall>r \<in> set (regex_rules (banned_env [97, 98])). rx_finditer r [] = []) \<longrightarrow>
           resp_issues resp2 = [])"
    by (elim exE conjE)
  have i2: "resp_issues resp2 = []"
    by (rule w2[THEN mp, OF ls, THEN conjunct2, THEN conjunct2, THEN mp, OF disjI1[OF off]])
  have x2: "\<exists>resp. api_check (banned_env [97, 98]) ?r2 = Some (Inr resp) \<and> resp_issues resp = []"
    by (rule exI[of _ resp2]) (rule conjI[OF a2 i2])
  show ?thesis
    by (rule conjI[OF l conjI[OF d1 conjI[OF t1 conjI[OF s1 conjI[OF x1
          conjI[OF d2 conjI[OF t2 conjI[OF ls conjI[OF off x2]]]]]]]]])
qed

end
